theory Spec2Isabelle
  imports Main "HOL-Library.AList" "HOL-Library.Monad_Syntax"
begin

section \<open>UMI clustering (bin/cluster\_umis.py)\<close>

subsection \<open>Values of the program\<close>

text \<open>
  A UMI is a Python \<open>str\<close>. A \<open>dict\<close> is an association list with distinct keys in
  insertion order (\<open>map_of\<close> looks a key up, \<open>AList.update\<close> stores a value: an existing
  key keeps its place, a new key goes last, as in Python). A result of type \<open>option\<close> is
  \<open>None\<close> exactly when the Python raises (\<open>KeyError\<close> on a missing dictionary key,
  \<open>IndexError\<close> on \<open>x[0]\<close> of an empty list).
\<close>

type_synonym umi = string
type_synonym counts_dict = "(umi \<times> int) list"
type_synonym adj_list = "(umi \<times> umi list) list"

text \<open>
  A Python \<open>set\<close> is a duplicate-free list of its elements. Python fixes neither the
  element that \<open>set.pop()\<close> removes nor the order in which a set is iterated (both follow
  the hash table, and string hashes change from process to process), so both are
  parameters of the model: \<open>pop_choice\<close> selects the index of the popped element,
  \<open>iter_rank\<close> ranks the elements of a set, and the set is iterated by ascending rank.
  Every order of iteration is the order of some rank, and every popped element is the
  choice of some \<open>pop_choice\<close>.
\<close>

type_synonym pyset = "umi list"

record set_order =
  pop_choice :: "pyset \<Rightarrow> nat"
  iter_rank :: "pyset \<Rightarrow> umi \<Rightarrow> nat"

definition set_add :: "umi \<Rightarrow> pyset \<Rightarrow> pyset" where
  "set_add x s = (if x \<in> set s then s else s @ [x])"

definition set_update :: "umi list \<Rightarrow> pyset \<Rightarrow> pyset" where
  "set_update xs s = fold set_add xs s"

definition set_pop :: "set_order \<Rightarrow> pyset \<Rightarrow> umi" where
  "set_pop so q = q ! (pop_choice so q mod length q)"

definition set_iter :: "set_order \<Rightarrow> pyset \<Rightarrow> umi list" where
  "set_iter so s = sort_key (iter_rank so s) s"

text \<open>
  \<open>editdistance.eval\<close> of the external package \<open>editdistance\<close>: the Levenshtein distance,
  by its recurrence.
\<close>

fun edit_distance :: "'a list \<Rightarrow> 'a list \<Rightarrow> nat" where
  "edit_distance [] ys = length ys"
| "edit_distance (x # xs) [] = Suc (length xs)"
| "edit_distance (x # xs) (y # ys) =
     min (min (edit_distance xs (y # ys) + 1) (edit_distance (x # xs) ys + 1))
         (edit_distance xs ys + (if x = y then 0 else 1))"

text \<open>A loop whose body may raise: the first failure ends it.\<close>

fun fold_opt :: "('a \<Rightarrow> 's \<Rightarrow> 's option) \<Rightarrow> 'a list \<Rightarrow> 's \<Rightarrow> 's option" where
  "fold_opt f [] s = Some s"
| "fold_opt f (x # xs) s = (case f x s of None \<Rightarrow> None | Some s' \<Rightarrow> fold_opt f xs s')"

text \<open>\<open>sorted(xs, key=lambda x: counts[x], reverse=True)\<close>: the keys are computed first
  (a missing one raises), the sort is stable, and \<open>reverse=True\<close> keeps the original
  order of elements with equal keys.\<close>

definition count_of :: "counts_dict \<Rightarrow> umi \<Rightarrow> int" where
  "count_of counts x = (case map_of counts x of Some c \<Rightarrow> c | None \<Rightarrow> 0)"

definition sorted_by_count_desc :: "counts_dict \<Rightarrow> umi list \<Rightarrow> umi list option" where
  "sorted_by_count_desc counts xs =
     (if list_all (\<lambda>x. map_of counts x \<noteq> None) xs
      then Some (sort_key (\<lambda>x. - count_of counts x) xs) else None)"

subsection \<open>breadth\_first\_search\<close>

fun visit :: "umi \<Rightarrow> pyset \<times> pyset \<Rightarrow> pyset \<times> pyset" where
  "visit next_node (queue, searched) =
     (if next_node \<notin> set searched
      then (set_add next_node queue, set_add next_node searched)
      else (queue, searched))"

definition graph_nodes :: "adj_list \<Rightarrow> umi set" where
  "graph_nodes adj = (\<Union>(k, ns) \<in> set adj. set ns)"

lemma visit_measure:
  assumes "finite U" "n \<in> U" "visit n (q, s) = (q', s')"
  shows "2 * card (U - set s') + length q' \<le> 2 * card (U - set s) + length q"
proof (cases "n \<in> set s")
  case True
  with assms show ?thesis by simp
next
  case False
  have "U - set (set_add n s) = (U - set s) - {n}"
    using False by (auto simp: set_add_def)
  moreover have "n \<in> U - set s" using False assms by simp
  ultimately have "card (U - set (set_add n s)) < card (U - set s)"
    using assms(1) by (metis card_Diff1_less finite_Diff)
  moreover have "length (set_add n q) \<le> Suc (length q)" by (simp add: set_add_def)
  ultimately show ?thesis using False assms by auto
qed

lemma fold_visit_measure:
  assumes "finite U" "set ns \<subseteq> U" "fold visit ns (q, s) = (q', s')"
  shows "2 * card (U - set s') + length q' \<le> 2 * card (U - set s) + length q"
  using assms
proof (induction ns arbitrary: q s)
  case Nil
  then show ?case by simp
next
  case (Cons n ns)
  obtain q1 s1 where v: "visit n (q, s) = (q1, s1)" by (cases "visit n (q, s)")
  from Cons.prems v have "fold visit ns (q1, s1) = (q', s')" by simp
  with Cons have "2 * card (U - set s') + length q' \<le> 2 * card (U - set s1) + length q1"
    by simp
  moreover have "2 * card (U - set s1) + length q1 \<le> 2 * card (U - set s) + length q"
    using visit_measure [OF Cons.prems(1) _ v] Cons.prems(2) by simp
  ultimately show ?case by linarith
qed

function bfs_loop :: "set_order \<Rightarrow> adj_list \<Rightarrow> pyset \<Rightarrow> pyset \<Rightarrow> pyset option" where
  "bfs_loop so adj queue searched =
     (if length queue > 0 then
        (let node = set_pop so queue; queue1 = removeAll node queue in
         case map_of adj node of
           None \<Rightarrow> None
         | Some ns \<Rightarrow>
             (case fold visit ns (queue1, searched) of
                (queue2, searched2) \<Rightarrow> bfs_loop so adj queue2 searched2))
      else Some searched)"
  by pat_completeness auto
termination
proof (relation "measure (\<lambda>(so, adj, queue, searched).
         2 * card (graph_nodes adj - set searched) + length queue)", goal_cases)
  case 1
  then show ?case by simp
next
  case (2 so adj queue searched node queue1 ns queue2 searched2)
  have fin: "finite (graph_nodes adj)" by (auto simp: graph_nodes_def)
  have "(node, ns) \<in> set adj" using 2 by (auto dest: map_of_SomeD)
  then have sub: "set ns \<subseteq> graph_nodes adj" by (auto simp: graph_nodes_def)
  have "node \<in> set queue" using 2 by (simp add: set_pop_def)
  then have "length queue1 < length queue"
    using 2 by (simp add: length_removeAll_less)
  moreover have "2 * card (graph_nodes adj - set searched2) + length queue2
      \<le> 2 * card (graph_nodes adj - set searched) + length queue1"
    using fold_visit_measure [OF fin sub, of queue1 searched queue2 searched2] 2 by simp
  ultimately show ?case by simp
qed

definition breadth_first_search :: "set_order \<Rightarrow> umi \<Rightarrow> adj_list \<Rightarrow> pyset option" where
  "breadth_first_search so node adj =
     bfs_loop so adj (set_update [node] []) (set_update [node] [])"

subsection \<open>get\_adj\_list\_directional\<close>

text \<open>\<open>itertools.combinations(umis, 2)\<close>: the pairs of positions \<open>i < j\<close>, in order.\<close>

fun combinations2 :: "'a list \<Rightarrow> ('a \<times> 'a) list" where
  "combinations2 [] = []"
| "combinations2 (x # xs) = map (Pair x) xs @ combinations2 xs"

text \<open>\<open>adj_list[u].append(v)\<close>\<close>

definition append_edge :: "umi \<Rightarrow> umi \<Rightarrow> adj_list \<Rightarrow> adj_list option" where
  "append_edge u v adj =
     (case map_of adj u of None \<Rightarrow> None | Some ns \<Rightarrow> Some (AList.update u (ns @ [v]) adj))"

fun adj_step :: "counts_dict \<Rightarrow> int \<Rightarrow> umi \<times> umi \<Rightarrow> adj_list \<Rightarrow> adj_list option" where
  "adj_step counts threshold (umi1, umi2) adj =
     (if int (edit_distance umi1 umi2) \<le> threshold then
        do {
          c1 \<leftarrow> map_of counts umi1;
          c2 \<leftarrow> map_of counts umi2;
          adj1 \<leftarrow> (if c1 \<ge> c2 * 2 - 1 then append_edge umi1 umi2 adj else Some adj);
          if c2 \<ge> c1 * 2 - 1 then append_edge umi2 umi1 adj1 else Some adj1
        }
      else Some adj)"

definition get_adj_list_directional ::
  "umi list \<Rightarrow> counts_dict \<Rightarrow> int \<Rightarrow> adj_list option" where
  "get_adj_list_directional umis counts threshold =
     fold_opt (adj_step counts threshold) (combinations2 umis)
       (fold (\<lambda>umi d. AList.update umi [] d) umis [])"

subsection \<open>get\_connected\_components\_adjacency\<close>

fun component_step ::
  "set_order \<Rightarrow> adj_list \<Rightarrow> umi \<Rightarrow> pyset \<times> pyset list \<Rightarrow> (pyset \<times> pyset list) option" where
  "component_step so graph node (found, components) =
     (if node \<notin> set found then
        do {
          component \<leftarrow> breadth_first_search so node graph;
          Some (set_update (set_iter so component) found, components @ [component])
        }
      else Some (found, components))"

definition get_connected_components_adjacency ::
  "set_order \<Rightarrow> umi list \<Rightarrow> adj_list \<Rightarrow> counts_dict \<Rightarrow> pyset list option" where
  "get_connected_components_adjacency so umis graph counts =
     do {
       nodes \<leftarrow> sorted_by_count_desc counts (map fst graph);
       r \<leftarrow> fold_opt (component_step so graph) nodes ([], []);
       Some (snd r)
     }"

subsection \<open>group\_directional\<close>

fun claim_node :: "umi \<Rightarrow> pyset \<times> umi list \<Rightarrow> pyset \<times> umi list" where
  "claim_node node (observed, temp_cluster) =
     (if node \<notin> set observed
      then (set_add node observed, temp_cluster @ [node])
      else (observed, temp_cluster))"

fun group_step ::
  "set_order \<Rightarrow> counts_dict \<Rightarrow> pyset \<Rightarrow> pyset \<times> umi list list \<Rightarrow>
     (pyset \<times> umi list list) option" where
  "group_step so counts cluster (observed, groups) =
     (if length cluster = 1 then
        Some (set_update (set_iter so cluster) observed, groups @ [set_iter so cluster])
      else
        do {
          cluster' \<leftarrow> sorted_by_count_desc counts (set_iter so cluster);
          case fold claim_node cluster' (observed, []) of
            (observed', temp_cluster) \<Rightarrow> Some (observed', groups @ [temp_cluster])
        })"

definition group_directional ::
  "set_order \<Rightarrow> pyset list \<Rightarrow> adj_list \<Rightarrow> counts_dict \<Rightarrow> umi list list option" where
  "group_directional so clusters adj counts =
     do {
       r \<leftarrow> fold_opt (group_step so counts) clusters ([], []);
       Some (snd r)
     }"

subsection \<open>cluster, create\_map\_to\_correct\_umi and the per-group correction\<close>

definition cluster :: "set_order \<Rightarrow> counts_dict \<Rightarrow> int \<Rightarrow> umi list list option" where
  "cluster so counts_dict threshold =
     do {
       adj \<leftarrow> get_adj_list_directional (map fst counts_dict) counts_dict threshold;
       clusters \<leftarrow> get_connected_components_adjacency so (map fst counts_dict) adj counts_dict;
       groups \<leftarrow> group_directional so clusters adj counts_dict;
       Some (map (\<lambda>x. x) groups)
     }"

text \<open>\<open>{y: x[0] for x in cluster_list for y in x}\<close>: \<open>x[0]\<close> is evaluated once for each
  \<open>y\<close> of \<open>x\<close>.\<close>

fun map_entry :: "umi list \<Rightarrow> umi \<Rightarrow> (umi \<times> umi) list \<Rightarrow> (umi \<times> umi) list option" where
  "map_entry [] y my_map = None"
| "map_entry (x0 # xs) y my_map = Some (AList.update y x0 my_map)"

definition create_map_to_correct_umi :: "umi list list \<Rightarrow> (umi \<times> umi) list option" where
  "create_map_to_correct_umi cluster_list =
     fold_opt (\<lambda>x. fold_opt (map_entry x) x) cluster_list []"

text \<open>The per-group correction of \<open>correct_umis\<close>, from the count dictionary on:
  \<open>create_map_to_correct_umi(cluster(counts_dict))\<close>, with \<open>cluster\<close>'s default threshold.\<close>

definition correction_map :: "set_order \<Rightarrow> counts_dict \<Rightarrow> (umi \<times> umi) list option" where
  "correction_map so counts_dict =
     do { cluster_list \<leftarrow> cluster so counts_dict 3; create_map_to_correct_umi cluster_list }"

section \<open>Records of reads (process\_records)\<close>

subsection \<open>Values\<close>

text \<open>
  Exceptions of this part are values of \<open>py_error\<close>; a function that can raise returns
  \<open>py_error + 'a\<close>. \<open>ClusteringRaised\<close> stands for an exception of the clustering above
  (a \<open>None\<close> there).
\<close>

datatype py_error = KeyError string | ZeroDivisionError | ClusteringRaised

definition bind_err :: "py_error + 'a \<Rightarrow> ('a \<Rightarrow> py_error + 'b) \<Rightarrow> py_error + 'b" where
  "bind_err m f = (case m of Inl e \<Rightarrow> Inl e | Inr x \<Rightarrow> f x)"

fun fold_err :: "('a \<Rightarrow> 's \<Rightarrow> py_error + 's) \<Rightarrow> 'a list \<Rightarrow> 's \<Rightarrow> py_error + 's" where
  "fold_err f [] s = Inr s"
| "fold_err f (x # xs) s = bind_err (f x s) (fold_err f xs)"

text \<open>The parsed arguments that \<open>process_records\<close> reads.\<close>

record args =
  ref_interval :: int
  cell_gene_max_reads :: int

text \<open>
  The three tables, keyed by read identifier, in file order: the gene assignments
  (\<open>status\<close>, \<open>mapq\<close>, \<open>gene\<close>), the transcript assignments (the column \<open>ref_id\<close>) and the
  tags (\<open>CB\<close>, \<open>UR\<close> and the alignment's \<open>chr\<close>, \<open>start\<close>, \<open>end\<close>). Alignment coordinates
  are natural numbers.
\<close>

record gene_assign =
  ga_status :: string
  ga_mapq :: int
  ga_gene :: string

record tag_row =
  tg_CB :: string
  tg_UR :: string
  tg_chr :: string
  tg_start :: nat
  tg_end :: nat

type_synonym 'a table = "(string \<times> 'a) list"

text \<open>\<open>str(n)\<close> of an integer, for the f-string of \<open>create_region_name\<close>.\<close>

function str_nat :: "nat \<Rightarrow> string" where
  "str_nat n =
     (if n < 10 then [''0123456789'' ! n]
      else str_nat (n div 10) @ [''0123456789'' ! (n mod 10)])"
  by pat_completeness auto
termination
  by (relation "measure id") auto

definition str_int :: "int \<Rightarrow> string" where
  "str_int i = (if i < 0 then CHR ''-'' # str_nat (nat (- i)) else str_nat (nat i))"

subsection \<open>create\_region\_name\<close>

text \<open>
  \<open>int((start + end) / 2)\<close>, \<open>np.floor(midpoint / ref_interval) * ref_interval\<close> and
  \<open>np.ceil(midpoint / ref_interval) * ref_interval\<close>, in exact integer arithmetic (the
  floating-point computation of the source is exact for coordinates below \<open>2^53\<close>).
  The division raises \<open>ZeroDivisionError\<close> on a zero interval.
\<close>

definition midpoint :: "nat \<Rightarrow> nat \<Rightarrow> int" where
  "midpoint start_pos end_pos = int ((start_pos + end_pos) div 2)"

definition interval_start :: "int \<Rightarrow> int \<Rightarrow> int" where
  "interval_start m ref = (m div ref) * ref"

definition interval_end :: "int \<Rightarrow> int \<Rightarrow> int" where
  "interval_end m ref = (- ((- m) div ref)) * ref"

definition create_region_name :: "tag_row \<Rightarrow> args \<Rightarrow> py_error + string" where
  "create_region_name read a =
     (let chrom = tg_chr read;
          m = midpoint (tg_start read) (tg_end read)
      in if ref_interval a = 0 then Inl ZeroDivisionError
         else Inr (chrom @ ''_'' @ str_int (interval_start m (ref_interval a))
                     @ ''_'' @ str_int (interval_end m (ref_interval a))))"

subsection \<open>The loop over the merged rows\<close>

text \<open>
  \<open>left.merge(right, left_index=True, right_index=True)\<close> of pandas: the inner join on the
  index, in the order of the left keys (read identifiers are unique within a table).
\<close>

definition merge :: "'a table \<Rightarrow> 'b table \<Rightarrow> ('a \<times> 'b) table" where
  "merge left right =
     concat (map (\<lambda>(k, a). map (\<lambda>(k', b). (k, (a, b))) (filter (\<lambda>(k', b). k' = k) right)) left)"

type_synonym merged_row = "string \<times> ((gene_assign \<times> string) \<times> tag_row)"

text \<open>A record is \<open>(read_id, gene, transcript, bc_corr, umi_uncorr)\<close>.\<close>

type_synonym read_record = "string \<times> string \<times> string \<times> string \<times> string"

type_synonym counter = "string \<times> string \<Rightarrow> nat"

text \<open>
  The body of \<open>for row in df.itertuples()\<close>, in two steps. First the record of the row:
  the variable \<open>transcript_assigns\<close> is tested against \<open>None\<close>, so it is an option here;
  \<open>transcript_assigns.loc[read_id, 'ref_id']\<close> raises \<open>KeyError\<close> on a missing read
  identifier; a gene \<open>"NA"\<close> is replaced by the region name.
\<close>

fun row_record :: "args \<Rightarrow> string table option \<Rightarrow> merged_row \<Rightarrow> py_error + read_record" where
  "row_record a transcript_assigns (read_id, ((ga, ref_id), row)) =
     (let bc_corr = tg_CB row;
          umi_uncorr = tg_UR row;
          gene = ga_gene ga
      in bind_err
           (case transcript_assigns of
              Some ta \<Rightarrow>
                (case map_of ta read_id of
                   Some t \<Rightarrow> Inr t
                 | None \<Rightarrow> Inl (KeyError read_id))
            | None \<Rightarrow> Inr ''-'')
           (\<lambda>transcript.
              bind_err (if gene = ''NA'' then create_region_name row a else Inr gene)
                (\<lambda>gene. Inr (read_id, gene, transcript, bc_corr, umi_uncorr))))"

text \<open>Then the counter of the pair \<open>(bc_corr, gene)\<close> and the cap.\<close>

fun count_and_cap ::
  "args \<Rightarrow> read_record \<Rightarrow> counter \<times> read_record list \<Rightarrow> counter \<times> read_record list" where
  "count_and_cap a (read_id, gene, transcript, bc_corr, umi_uncorr) (cell_gene_counter, records) =
     (let counter1 = cell_gene_counter
            ((bc_corr, gene) := cell_gene_counter (bc_corr, gene) + 1)
      in if int (counter1 (bc_corr, gene)) \<le> cell_gene_max_reads a
         then (counter1, records @ [(read_id, gene, transcript, bc_corr, umi_uncorr)])
         else (counter1, records))"

definition record_step ::
  "args \<Rightarrow> string table option \<Rightarrow> merged_row \<Rightarrow> counter \<times> read_record list \<Rightarrow>
     py_error + (counter \<times> read_record list)" where
  "record_step a transcript_assigns row st =
     bind_err (row_record a transcript_assigns row) (\<lambda>r. Inr (count_and_cap a r st))"

text \<open>
  The first part of \<open>process_records\<close>: the two merges and the loop. The transcript table
  is a data frame in every case (an empty one after \<open>EmptyDataError\<close>), never \<open>None\<close>.
\<close>

definition collect_records ::
  "args \<Rightarrow> gene_assign table \<Rightarrow> string table \<Rightarrow> tag_row table \<Rightarrow> py_error + read_record list" where
  "collect_records a gene_assigns transcript_assigns tags =
     (let df = merge (merge gene_assigns transcript_assigns) tags
      in bind_err (fold_err (record_step a (Some transcript_assigns)) df (\<lambda>k. 0, []))
           (\<lambda>r. Inr (snd r)))"

subsection \<open>Data frames\<close>

text \<open>
  A pandas data frame of strings: the index, the column labels, and the cells row by row.
  The operations are those \<open>process_records\<close> and \<open>run_groupby\<close> use, with the
  \<open>KeyError\<close> pandas raises on a missing label.
\<close>

record frame =
  f_index :: "string list"
  f_columns :: "string list"
  f_cells :: "string list list"

definition col_pos :: "string list \<Rightarrow> string \<Rightarrow> nat option" where
  "col_pos cols c =
     (if c \<in> set cols then Some (length (takeWhile (\<lambda>x. x \<noteq> c) cols)) else None)"

definition get_col :: "frame \<Rightarrow> string \<Rightarrow> py_error + string list" where
  "get_col df c =
     (case col_pos (f_columns df) c of
        None \<Rightarrow> Inl (KeyError c)
      | Some i \<Rightarrow> Inr (map (\<lambda>row. row ! i) (f_cells df)))"

text \<open>\<open>df[c] = values\<close> for a new label \<open>c\<close>: the column goes last.\<close>

definition set_col :: "frame \<Rightarrow> string \<Rightarrow> string list \<Rightarrow> frame" where
  "set_col df c vals =
     df\<lparr>f_columns := f_columns df @ [c],
        f_cells := map (\<lambda>(row, v). row @ [v]) (zip (f_cells df) vals)\<rparr>"

definition remove_nth :: "nat \<Rightarrow> 'a list \<Rightarrow> 'a list" where
  "remove_nth i xs = take i xs @ drop (Suc i) xs"

definition drop_col :: "string \<Rightarrow> frame \<Rightarrow> py_error + frame" where
  "drop_col c df =
     (case col_pos (f_columns df) c of
        None \<Rightarrow> Inl (KeyError c)
      | Some i \<Rightarrow> Inr (df\<lparr>f_columns := remove_nth i (f_columns df),
                          f_cells := map (remove_nth i) (f_cells df)\<rparr>))"

definition drop_cols :: "frame \<Rightarrow> string list \<Rightarrow> py_error + frame" where
  "drop_cols df labels = fold_err drop_col labels df"

definition set_index :: "frame \<Rightarrow> string \<Rightarrow> py_error + frame" where
  "set_index df c =
     bind_err (get_col df c) (\<lambda>vals. bind_err (drop_col c df) (\<lambda>df1. Inr (df1\<lparr>f_index := vals\<rparr>)))"

text \<open>\<open>df.loc[labels]\<close>: for each label in turn, the rows with that index.\<close>

definition loc_rows :: "frame \<Rightarrow> string list \<Rightarrow> frame" where
  "loc_rows df labels =
     (let rows = concat (map (\<lambda>l. filter (\<lambda>(i, row). i = l) (zip (f_index df) (f_cells df))) labels)
      in df\<lparr>f_index := map fst rows, f_cells := map snd rows\<rparr>)"

text \<open>\<open>pd.concat(results, axis=0)\<close> of frames with the same columns.\<close>

definition concat_frames :: "frame list \<Rightarrow> frame" where
  "concat_frames dfs =
     \<lparr>f_index = concat (map f_index dfs), f_columns = f_columns (hd dfs),
      f_cells = concat (map f_cells dfs)\<rparr>"

text \<open>\<open>df.to_dict()[c]\<close>: the dictionary from index to the cell of column \<open>c\<close>.\<close>

definition to_dict_col :: "frame \<Rightarrow> string \<Rightarrow> py_error + (string \<times> string) list" where
  "to_dict_col df c =
     bind_err (get_col df c)
       (\<lambda>vals. Inr (fold (\<lambda>(i, v) d. AList.update i v d) (zip (f_index df) vals) []))"

subsection \<open>correct\_umis and run\_groupby\<close>

text \<open>\<open>dict(umis.value_counts())\<close>: the distinct values with their numbers of occurrences,
  by descending count.\<close>

definition value_counts :: "umi list \<Rightarrow> counts_dict" where
  "value_counts umis =
     sort_key (\<lambda>(u, c). - c)
       (map (\<lambda>u. (u, int (count_list umis u))) (rev (remdups (rev umis))))"

definition correct_umis :: "set_order \<Rightarrow> umi list \<Rightarrow> py_error + umi list" where
  "correct_umis so umis =
     (case correction_map so (value_counts umis) of
        None \<Rightarrow> Inl ClusteringRaised
      | Some umi_map \<Rightarrow>
          Inr (map (\<lambda>u. case map_of umi_map u of Some r \<Rightarrow> r | None \<Rightarrow> u) umis))"

text \<open>
  \<open>df.groupby(["gene_cell"])["umi_uncorr"].transform(correct_umis)\<close>: the rows of one index
  value form a group, \<open>correct_umis\<close> runs on the UMIs of the group, and each row receives
  the corrected UMI of its own position.
\<close>

definition group_positions :: "string list \<Rightarrow> string \<Rightarrow> nat list" where
  "group_positions idx g = filter (\<lambda>j. idx ! j = g) [0 ..< length idx]"

definition transform_row ::
  "set_order \<Rightarrow> string list \<Rightarrow> umi list \<Rightarrow> nat \<Rightarrow> py_error + umi" where
  "transform_row so idx umis i =
     (let ps = group_positions idx (idx ! i)
      in bind_err (correct_umis so (map (\<lambda>j. umis ! j) ps))
           (\<lambda>corrected. Inr (corrected ! length (takeWhile (\<lambda>j. j \<noteq> i) ps))))"

fun map_err :: "('a \<Rightarrow> py_error + 'b) \<Rightarrow> 'a list \<Rightarrow> py_error + 'b list" where
  "map_err f [] = Inr []"
| "map_err f (x # xs) = bind_err (f x) (\<lambda>y. bind_err (map_err f xs) (\<lambda>ys. Inr (y # ys)))"

definition run_groupby :: "set_order \<Rightarrow> frame \<Rightarrow> py_error + frame" where
  "run_groupby so df =
     bind_err (get_col df ''umi_uncorr'')
       (\<lambda>umis. bind_err (map_err (transform_row so (f_index df) umis) [0 ..< length umis])
          (\<lambda>corr. Inr (set_col df ''umi_corr'' corr)))"

subsection \<open>process\_records\<close>

text \<open>\<open>chunks(lst, n)\<close>: the slices \<open>lst[i : i + n]\<close> for \<open>i\<close> in \<open>range(0, len(lst), n)\<close>.\<close>

definition chunks :: "'a list \<Rightarrow> nat \<Rightarrow> 'a list list" where
  "chunks lst n = map (\<lambda>j. take n (drop (j * n) lst)) [0 ..< (length lst + n - 1) div n]"

definition from_records :: "read_record list \<Rightarrow> frame" where
  "from_records records =
     \<lparr>f_index = map str_nat [0 ..< length records],
      f_columns = [''read_id'', ''gene'', ''transcript'', ''bc'', ''umi_uncorr''],
      f_cells = map (\<lambda>(read_id, gene, transcript, bc, umi). [read_id, gene, transcript, bc, umi])
                  records\<rparr>"

text \<open>
  \<open>process_records\<close> up to the call of \<open>add_tags\<close>: the result is the three dictionaries
  \<open>umis\<close>, \<open>genes\<close> and \<open>transcripts\<close> that \<open>add_tags\<close> receives. \<open>launch_pool\<close> returns the
  results of \<open>run_groupby\<close> on the chunks, in order; \<open>list(set(df.index))\<close> iterates a set.
\<close>

definition process_records ::
  "set_order \<Rightarrow> args \<Rightarrow> gene_assign table \<Rightarrow> string table \<Rightarrow> tag_row table \<Rightarrow>
     py_error + ((string \<times> string) list \<times> (string \<times> string) list \<times> (string \<times> string) list)" where
  "process_records so a gene_assigns transcript_assigns tags =
     bind_err (collect_records a gene_assigns transcript_assigns tags) (\<lambda>records.
     let df = from_records records in
     bind_err (get_col df ''gene'') (\<lambda>genes.
     bind_err (get_col df ''bc'') (\<lambda>bcs.
     let df = set_col df ''gene_cell'' (map (\<lambda>(g, b). g @ '':'' @ b) (zip genes bcs)) in
     bind_err (set_index df ''gene_cell'') (\<lambda>df.
     let gene_cell_unique = set_iter so (set_update (f_index df) []);
         gene_cell_chunks = chunks gene_cell_unique 50;
         func_args = map (loc_rows df) gene_cell_chunks
     in
     bind_err (map_err (run_groupby so) func_args) (\<lambda>results.
     let df = (if length results > 0 then concat_frames results
               else \<lparr>f_index = [],
                     f_columns = [''read_id'', ''gene'', ''bc'', ''umi_uncorr'', ''umi_corr''],
                     f_cells = []\<rparr>)
     in
     bind_err (drop_cols df [''bc'', ''umi_uncorr'']) (\<lambda>df.
     bind_err (set_index df ''read_id'') (\<lambda>df.
     bind_err (to_dict_col df ''umi_corr'') (\<lambda>umis.
     bind_err (to_dict_col df ''gene'') (\<lambda>genes.
     bind_err (to_dict_col df ''transcript'') (\<lambda>transcripts.
     Inr (umis, genes, transcripts)))))))))))"

section \<open>Specification notions\<close>

text \<open>The successors of a node are its neighbour list (none when the node is no key);
  \<open>reach adj u\<close> is the set of nodes reached from \<open>u\<close> along the directed edges.\<close>

definition nbrs :: "adj_list \<Rightarrow> umi \<Rightarrow> umi set" where
  "nbrs adj u = (case map_of adj u of Some ns \<Rightarrow> set ns | None \<Rightarrow> {})"

definition edges :: "adj_list \<Rightarrow> (umi \<times> umi) set" where
  "edges adj = {(u, v). v \<in> nbrs adj u}"

definition reach :: "adj_list \<Rightarrow> umi \<Rightarrow> umi set" where
  "reach adj u = (edges adj)\<^sup>* `` {u}"

text \<open>Every neighbour is itself a key of the adjacency structure.\<close>

definition closed_graph :: "adj_list \<Rightarrow> bool" where
  "closed_graph adj = (\<forall>(k, ns)\<in>set adj. set ns \<subseteq> fst ` set adj)"

definition admits :: "counts_dict \<Rightarrow> int \<Rightarrow> umi \<Rightarrow> umi \<Rightarrow> bool" where
  "admits counts t u v =
     (int (edit_distance u v) \<le> t \<and> count_of counts u \<ge> 2 * count_of counts v - 1)"

text \<open>The nodes at which \<open>get_connected_components_adjacency\<close> starts a search, given the
  nodes in the order of the loop, the set \<open>F\<close> of nodes found so far and the set \<open>R n\<close>
  that a search from \<open>n\<close> returns.\<close>

fun starts :: "(umi \<Rightarrow> umi set) \<Rightarrow> umi list \<Rightarrow> umi set \<Rightarrow> umi list" where
  "starts R [] F = []"
| "starts R (n # ns) F = (if n \<in> F then starts R ns F else n # starts R ns (F \<union> R n))"

text \<open>What \<open>group_directional\<close> emits for one component, given the set \<open>obs\<close> of nodes
  observed before it, and for a list of components.\<close>

definition group_of :: "set_order \<Rightarrow> counts_dict \<Rightarrow> umi set \<Rightarrow> pyset \<Rightarrow> umi list" where
  "group_of so counts obs c =
     (if length c = 1 then set_iter so c
      else filter (\<lambda>n. n \<notin> obs) (sort_key (\<lambda>x. - count_of counts x) (set_iter so c)))"

fun groups_of :: "set_order \<Rightarrow> counts_dict \<Rightarrow> umi set \<Rightarrow> pyset list \<Rightarrow> umi list list" where
  "groups_of so counts obs [] = []"
| "groups_of so counts obs (c # cs) =
     group_of so counts obs c # groups_of so counts (obs \<union> set c) cs"

text \<open>Every component of the list has a member outside the components before it and
  outside \<open>obs\<close>.\<close>

fun fresh :: "umi set \<Rightarrow> pyset list \<Rightarrow> bool" where
  "fresh obs [] = True"
| "fresh obs (c # cs) = ((\<exists>s\<in>set c. s \<notin> obs) \<and> fresh (obs \<union> set c) cs)"

text \<open>The group of a record: its cell barcode and gene, the key of the counter.\<close>

definition record_group :: "read_record \<Rightarrow> string \<times> string" where
  "record_group r = (case r of (read_id, gene, transcript, bc_corr, umi_uncorr) \<Rightarrow> (bc_corr, gene))"

text \<open>The set order \<open>so\<close> changed to iterate \<open>y\<close> before every other element of a set.\<close>

definition iterate_first :: "umi \<Rightarrow> set_order \<Rightarrow> set_order" where
  "iterate_first y so = so\<lparr>iter_rank := (\<lambda>s x. if x = y then 0 else 1)\<rparr>"

subsection \<open>Concrete inputs\<close>

text \<open>Two set orders for concrete runs: \<open>fifo_order\<close> pops the oldest element and iterates
  in the order of insertion, \<open>lifo_order\<close> pops the newest element and iterates in the
  reverse order of insertion.\<close>

definition fifo_order :: set_order where
  "fifo_order = \<lparr>pop_choice = (\<lambda>q. 0), iter_rank = (\<lambda>s x. 0)\<rparr>"

definition lifo_order :: set_order where
  "lifo_order = \<lparr>pop_choice = (\<lambda>q. length q - 1),
                  iter_rank = (\<lambda>s x. length (takeWhile (\<lambda>y. y \<noteq> x) (rev s)))\<rparr>"

definition example_args :: args where
  "example_args = \<lparr>ref_interval = 10, cell_gene_max_reads = 2\<rparr>"

definition example_tags :: "string \<Rightarrow> string \<Rightarrow> tag_row" where
  "example_tags bc umi =
     \<lparr>tg_CB = bc, tg_UR = umi, tg_chr = ''chr1'', tg_start = 14, tg_end = 16\<rparr>"

definition example_gene :: "string \<Rightarrow> gene_assign" where
  "example_gene g = \<lparr>ga_status = ''Assigned'', ga_mapq = 60, ga_gene = g\<rparr>"

definition example_gene_table :: "gene_assign table" where
  "example_gene_table =
     [(''r1'', example_gene ''G1''), (''r2'', example_gene ''G1''),
      (''r3'', example_gene ''G1''), (''r4'', example_gene ''NA'')]"

definition example_transcript_table :: "string table" where
  "example_transcript_table = [(''r1'', ''T1''), (''r2'', ''T1''), (''r3'', ''T2''), (''r4'', ''T2'')]"

definition example_tag_table :: "tag_row table" where
  "example_tag_table =
     [(''r1'', example_tags ''B'' ''AAAA''), (''r2'', example_tags ''B'' ''AAAT''),
      (''r3'', example_tags ''B'' ''AAAA''), (''r4'', example_tags ''B'' ''AAAT'')]"

section \<open>Python sets\<close>

lemma set_set_add: "set (set_add x s) = insert x (set s)"
  by (auto simp: set_add_def)

lemma distinct_set_add: "distinct s \<Longrightarrow> distinct (set_add x s)"
  by (simp add: set_add_def)

lemma set_set_update: "set (set_update xs s) = set xs \<union> set s"
  unfolding set_update_def by (induction xs arbitrary: s) (auto simp: set_set_add)

lemma distinct_set_update: "distinct s \<Longrightarrow> distinct (set_update xs s)"
  unfolding set_update_def by (induction xs arbitrary: s) (auto simp: distinct_set_add)

lemma set_set_iter: "set (set_iter so s) = set s"
  by (simp add: set_iter_def)

lemma distinct_set_iter: "distinct (set_iter so s) = distinct s"
  by (simp add: set_iter_def)

lemma length_set_iter: "length (set_iter so s) = length s"
  by (simp add: set_iter_def)

section \<open>The search returns the reachable set\<close>

lemma fold_visit_sets:
  "fold visit ns (q, s) = (q', s') \<Longrightarrow>
     set s' = set s \<union> set ns \<and> set q' = set q \<union> (set ns - set s)"
proof (induction ns arbitrary: q s)
  case Nil
  then show ?case by simp
next
  case (Cons n ns)
  show ?case
  proof (cases "n \<in> set s")
    case True
    with Cons.prems have "fold visit ns (q, s) = (q', s')" by simp
    from Cons.IH [OF this] True show ?thesis by auto
  next
    case False
    with Cons.prems have "fold visit ns (set_add n q, set_add n s) = (q', s')" by simp
    from Cons.IH [OF this] False show ?thesis by (auto simp: set_set_add)
  qed
qed

lemma fold_visit_distinct:
  "fold visit ns (q, s) = (q', s') \<Longrightarrow> distinct s \<Longrightarrow> distinct s'"
proof (induction ns arbitrary: q s)
  case Nil
  then show ?case by simp
next
  case (Cons n ns)
  then show ?case by (cases "n \<in> set s") (auto simp: distinct_set_add)
qed

lemma bfs_loop_correct:
  assumes "closed_graph adj"
    and "set searched \<subseteq> fst ` set adj"
    and "set queue \<subseteq> set searched"
    and "distinct searched"
    and "set searched \<subseteq> R"
    and "\<forall>u\<in>R. nbrs adj u \<subseteq> R"
    and "\<forall>u\<in>set searched - set queue. nbrs adj u \<subseteq> set searched"
  shows "\<exists>r. bfs_loop so adj queue searched = Some r \<and> distinct r \<and> set searched \<subseteq> set r
           \<and> set r \<subseteq> R \<and> (\<forall>u\<in>set r. nbrs adj u \<subseteq> set r)"
  using assms
proof (induction so adj queue searched rule: bfs_loop.induct)
  case (1 so adj queue searched)
  show ?case
  proof (cases "queue = []")
    case True
    with "1.prems" show ?thesis by simp
  next
    case False
    define node where "node = set_pop so queue"
    define queue1 where "queue1 = removeAll node queue"
    have node_in: "node \<in> set queue"
      using False by (simp add: node_def set_pop_def)
    then have "node \<in> fst ` set adj" using "1.prems" by blast
    then obtain ns where ns: "map_of adj node = Some ns"
      by (metis domD dom_map_of_conv_image_fst)
    obtain queue2 searched2 where f: "fold visit ns (queue1, searched) = (queue2, searched2)"
      by (cases "fold visit ns (queue1, searched)")
    have nb: "nbrs adj node = set ns" using ns by (simp add: nbrs_def)
    from fold_visit_sets [OF f]
    have s2: "set searched2 = set searched \<union> set ns"
      and q2: "set queue2 = set queue1 \<union> (set ns - set searched)" by auto
    have q1: "set queue1 = set queue - {node}" by (auto simp: queue1_def)
    have nsR: "set ns \<subseteq> R" using "1.prems" node_in nb by blast
    have nsK: "set ns \<subseteq> fst ` set adj"
      using "1.prems"(1) map_of_SomeD [OF ns] by (auto simp: closed_graph_def)
    have "\<exists>r. bfs_loop so adj queue2 searched2 = Some r \<and> distinct r \<and> set searched2 \<subseteq> set r
           \<and> set r \<subseteq> R \<and> (\<forall>u\<in>set r. nbrs adj u \<subseteq> set r)"
    proof (rule "1.IH" [OF _ node_def queue1_def ns f [symmetric]])
      show "0 < length queue" using False by simp
      show "closed_graph adj" by fact
      show "set searched2 \<subseteq> fst ` set adj" using s2 nsK "1.prems" by auto
      show "set queue2 \<subseteq> set searched2" using s2 q2 q1 "1.prems" by auto
      show "distinct searched2" using fold_visit_distinct [OF f] "1.prems" by simp
      show "set searched2 \<subseteq> R" using s2 nsR "1.prems" by auto
      show "\<forall>u\<in>R. nbrs adj u \<subseteq> R" by fact
      show "\<forall>u\<in>set searched2 - set queue2. nbrs adj u \<subseteq> set searched2"
      proof
        fix u assume u: "u \<in> set searched2 - set queue2"
        show "nbrs adj u \<subseteq> set searched2"
        proof (cases "u = node")
          case True
          then show ?thesis using nb s2 by auto
        next
          case False
          with u s2 q2 q1 have "u \<in> set searched - set queue" by auto
          with "1.prems" have "nbrs adj u \<subseteq> set searched" by blast
          then show ?thesis using s2 by auto
        qed
      qed
    qed
    then obtain r where r: "bfs_loop so adj queue2 searched2 = Some r" "distinct r"
      "set searched2 \<subseteq> set r" "set r \<subseteq> R" "\<forall>u\<in>set r. nbrs adj u \<subseteq> set r" by blast
    have "bfs_loop so adj queue searched = Some r"
      using False ns f r(1) node_def [symmetric] queue1_def [symmetric]
      by (subst bfs_loop.simps) (simp add: Let_def)
    then show ?thesis using r s2 by auto
  qed
qed

lemma reach_closed: "\<forall>u\<in>reach adj s. nbrs adj u \<subseteq> reach adj s"
  by (auto simp: reach_def edges_def intro: rtrancl_into_rtrancl)

lemma reach_least:
  assumes "s \<in> X" "\<forall>u\<in>X. nbrs adj u \<subseteq> X"
  shows "reach adj s \<subseteq> X"
proof
  fix v assume "v \<in> reach adj s"
  then have "(s, v) \<in> (edges adj)\<^sup>*" by (simp add: reach_def)
  then show "v \<in> X"
    by (induction rule: rtrancl_induct) (use assms in \<open>auto simp: edges_def\<close>)
qed

lemma breadth_first_search_correct:
  assumes "closed_graph adj" "node \<in> fst ` set adj"
  shows "\<exists>r. breadth_first_search so node adj = Some r \<and> distinct r \<and> set r = reach adj node"
proof -
  have init: "set_update [node] [] = [node]" by (simp add: set_update_def set_add_def)
  have "\<exists>r. bfs_loop so adj [node] [node] = Some r \<and> distinct r \<and> set [node] \<subseteq> set r
           \<and> set r \<subseteq> reach adj node \<and> (\<forall>u\<in>set r. nbrs adj u \<subseteq> set r)"
    by (rule bfs_loop_correct) (use assms reach_closed in \<open>auto simp: reach_def\<close>)
  then obtain r where r: "bfs_loop so adj [node] [node] = Some r" "distinct r" "node \<in> set r"
     "set r \<subseteq> reach adj node" "\<forall>u\<in>set r. nbrs adj u \<subseteq> set r" by auto
  from reach_least [OF r(3) r(5)] r(4) have "set r = reach adj node" by auto
  with r show ?thesis by (simp add: breadth_first_search_def init)
qed

section \<open>The adjacency structure\<close>

lemma edit_distance_Nil2: "edit_distance xs [] = length xs"
  by (cases xs) auto

lemma edit_distance_sym: "edit_distance xs ys = edit_distance ys xs"
  by (induction xs ys rule: edit_distance.induct)
     (auto simp: edit_distance_Nil2 min.commute min.left_commute)

lemma update_new_key: "k \<notin> fst ` set al \<Longrightarrow> AList.update k v al = al @ [(k, v)]"
  by (induction al) auto

lemma init_adj_list:
  "distinct umis \<Longrightarrow> set umis \<inter> fst ` set d = {} \<Longrightarrow>
     fold (\<lambda>umi d. AList.update umi [] d) umis d = d @ map (\<lambda>u. (u, [])) umis"
proof (induction umis arbitrary: d)
  case Nil
  then show ?case by simp
next
  case (Cons u umis)
  have "AList.update u [] d = d @ [(u, [])]"
    using Cons.prems by (intro update_new_key) auto
  moreover have "fold (\<lambda>umi d. AList.update umi [] d) umis (d @ [(u, [])])
       = (d @ [(u, [])]) @ map (\<lambda>u. (u, [])) umis"
    using Cons.prems by (intro Cons.IH) auto
  ultimately show ?case by simp
qed

lemma nbrs_init: "nbrs (map (\<lambda>u. (u, [])) umis) u = {}"
  by (induction umis) (auto simp: nbrs_def split: option.splits)

lemma append_edge_ok:
  assumes "u \<in> fst ` set adj"
  shows "\<exists>adj'. append_edge u v adj = Some adj' \<and> map fst adj' = map fst adj
           \<and> nbrs adj' = (nbrs adj)(u := insert v (nbrs adj u))"
proof -
  from assms obtain ns where ns: "map_of adj u = Some ns"
    by (metis domD dom_map_of_conv_image_fst)
  have k: "map fst (AList.update u (ns @ [v]) adj) = map fst adj"
    using assms by (simp add: update_keys)
  have "nbrs (AList.update u (ns @ [v]) adj) = (nbrs adj)(u := insert v (nbrs adj u))"
    using ns by (auto simp: nbrs_def fun_eq_iff update_conv')
  with ns k show ?thesis by (simp add: append_edge_def)
qed

lemma adj_step_ok:
  assumes "u1 \<in> fst ` set adj" "u2 \<in> fst ` set adj"
    and "u1 \<in> fst ` set counts" "u2 \<in> fst ` set counts"
  shows "\<exists>adj'. adj_step counts t (u1, u2) adj = Some adj' \<and> map fst adj' = map fst adj
           \<and> (\<forall>u. nbrs adj' u = nbrs adj u
                 \<union> {v. u = u1 \<and> v = u2 \<and> admits counts t u v}
                 \<union> {v. u = u2 \<and> v = u1 \<and> admits counts t u v})"
proof -
  from assms obtain c1 c2 where c: "map_of counts u1 = Some c1" "map_of counts u2 = Some c2"
    by (metis domD dom_map_of_conv_image_fst)
  then have cnt: "count_of counts u1 = c1" "count_of counts u2 = c2"
    by (simp_all add: count_of_def)
  show ?thesis
  proof (cases "int (edit_distance u1 u2) \<le> t")
    case False
    then have "\<not> admits counts t u1 u2" "\<not> admits counts t u2 u1"
      by (simp_all add: admits_def edit_distance_sym [of u2 u1])
    with False show ?thesis by auto
  next
    case True
    define adj1 where "adj1 = (if c1 \<ge> c2 * 2 - 1 then the (append_edge u1 u2 adj) else adj)"
    have a1: "(if c1 \<ge> c2 * 2 - 1 then append_edge u1 u2 adj else Some adj) = Some adj1"
      and k1: "map fst adj1 = map fst adj"
      and n1: "nbrs adj1 = (if c1 \<ge> c2 * 2 - 1 then (nbrs adj)(u1 := insert u2 (nbrs adj u1)) else nbrs adj)"
      using append_edge_ok [OF assms(1), of u2] by (auto simp: adj1_def)
    have u2': "u2 \<in> fst ` set adj1" using k1 assms(2) by (metis set_map)
    define adj2 where "adj2 = (if c2 \<ge> c1 * 2 - 1 then the (append_edge u2 u1 adj1) else adj1)"
    have a2: "(if c2 \<ge> c1 * 2 - 1 then append_edge u2 u1 adj1 else Some adj1) = Some adj2"
      and k2: "map fst adj2 = map fst adj1"
      and n2: "nbrs adj2 = (if c2 \<ge> c1 * 2 - 1 then (nbrs adj1)(u2 := insert u1 (nbrs adj1 u2)) else nbrs adj1)"
      using append_edge_ok [OF u2', of u1] by (auto simp: adj2_def)
    have step: "adj_step counts t (u1, u2) adj = Some adj2"
      using True c a1 a2 by simp
    have ad: "admits counts t u1 u2 \<longleftrightarrow> c1 \<ge> c2 * 2 - 1" "admits counts t u2 u1 \<longleftrightarrow> c2 \<ge> c1 * 2 - 1"
      using True cnt by (simp_all add: admits_def edit_distance_sym [of u2 u1] mult.commute)
    have "\<forall>u. nbrs adj2 u = nbrs adj u
                 \<union> {v. u = u1 \<and> v = u2 \<and> admits counts t u v}
                 \<union> {v. u = u2 \<and> v = u1 \<and> admits counts t u v}"
      unfolding n2 n1 using ad by auto
    with step k1 k2 show ?thesis by simp
  qed
qed

lemma adj_fold_ok:
  assumes "\<forall>(a, b)\<in>set ps. a \<in> fst ` set adj \<and> b \<in> fst ` set adj
              \<and> a \<in> fst ` set counts \<and> b \<in> fst ` set counts"
  shows "\<exists>adj'. fold_opt (adj_step counts t) ps adj = Some adj' \<and> map fst adj' = map fst adj
           \<and> (\<forall>u. nbrs adj' u = nbrs adj u
                 \<union> {v. ((u, v) \<in> set ps \<or> (v, u) \<in> set ps) \<and> admits counts t u v})"
  using assms
proof (induction ps arbitrary: adj)
  case Nil
  then show ?case by simp
next
  case (Cons p ps)
  obtain u1 u2 where p: "p = (u1, u2)" by (cases p)
  from Cons.prems p have mem: "u1 \<in> fst ` set adj" "u2 \<in> fst ` set adj"
    "u1 \<in> fst ` set counts" "u2 \<in> fst ` set counts" by auto
  from adj_step_ok [OF mem, of t] obtain adj1 where
    s1: "adj_step counts t (u1, u2) adj = Some adj1" and k1: "map fst adj1 = map fst adj"
    and n1: "\<forall>u. nbrs adj1 u = nbrs adj u
                 \<union> {v. u = u1 \<and> v = u2 \<and> admits counts t u v}
                 \<union> {v. u = u2 \<and> v = u1 \<and> admits counts t u v}" by blast
  have keq: "fst ` set adj1 = fst ` set adj" using k1 by (metis set_map)
  have "\<exists>adj'. fold_opt (adj_step counts t) ps adj1 = Some adj' \<and> map fst adj' = map fst adj1
           \<and> (\<forall>u. nbrs adj' u = nbrs adj1 u
                 \<union> {v. ((u, v) \<in> set ps \<or> (v, u) \<in> set ps) \<and> admits counts t u v})"
    by (rule Cons.IH) (use Cons.prems keq in auto)
  then obtain adj' where f: "fold_opt (adj_step counts t) ps adj1 = Some adj'"
    and k: "map fst adj' = map fst adj1"
    and n: "\<forall>u. nbrs adj' u = nbrs adj1 u
                 \<union> {v. ((u, v) \<in> set ps \<or> (v, u) \<in> set ps) \<and> admits counts t u v}" by blast
  have "\<forall>u. nbrs adj' u = nbrs adj u
                 \<union> {v. ((u, v) \<in> set (p # ps) \<or> (v, u) \<in> set (p # ps)) \<and> admits counts t u v}"
    using n n1 p by auto
  with f k k1 s1 p show ?case by simp
qed

lemma combinations2_subset: "(u, v) \<in> set (combinations2 xs) \<Longrightarrow> u \<in> set xs \<and> v \<in> set xs"
  by (induction xs) auto

lemma combinations2_irrefl: "distinct xs \<Longrightarrow> (u, u) \<notin> set (combinations2 xs)"
  by (induction xs) (auto dest: combinations2_subset)

lemma combinations2_total:
  "u \<in> set xs \<Longrightarrow> v \<in> set xs \<Longrightarrow> u \<noteq> v \<Longrightarrow>
     (u, v) \<in> set (combinations2 xs) \<or> (v, u) \<in> set (combinations2 xs)"
  by (induction xs) auto

lemma get_adj_list_directional_ok:
  assumes "distinct umis" "set umis \<subseteq> fst ` set counts"
  shows "\<exists>adj. get_adj_list_directional umis counts t = Some adj \<and> map fst adj = umis
           \<and> (\<forall>u. nbrs adj u = {v. u \<in> set umis \<and> v \<in> set umis \<and> v \<noteq> u \<and> admits counts t u v})"
proof -
  let ?d = "map (\<lambda>u. (u, [])) umis :: adj_list"
  have init: "fold (\<lambda>umi d. AList.update umi [] d) umis [] = ?d"
    using init_adj_list [OF assms(1), of "[]"] by simp
  have keys: "fst ` set ?d = set umis" by force
  have "\<exists>adj'. fold_opt (adj_step counts t) (combinations2 umis) ?d = Some adj'
           \<and> map fst adj' = map fst ?d
           \<and> (\<forall>u. nbrs adj' u = nbrs ?d u
                 \<union> {v. ((u, v) \<in> set (combinations2 umis) \<or> (v, u) \<in> set (combinations2 umis))
                        \<and> admits counts t u v})"
  proof -
    have "\<forall>(a, b)\<in>set (combinations2 umis). a \<in> fst ` set ?d \<and> b \<in> fst ` set ?d
              \<and> a \<in> fst ` set counts \<and> b \<in> fst ` set counts"
      unfolding keys using assms(2) by (auto dest!: combinations2_subset)
    from adj_fold_ok [OF this, of t] show ?thesis .
  qed
  then obtain adj where a: "fold_opt (adj_step counts t) (combinations2 umis) ?d = Some adj"
    and k: "map fst adj = map fst ?d"
    and n: "\<forall>u. nbrs adj u = nbrs ?d u
                 \<union> {v. ((u, v) \<in> set (combinations2 umis) \<or> (v, u) \<in> set (combinations2 umis))
                        \<and> admits counts t u v}" by blast
  have pairs: "((u, v) \<in> set (combinations2 umis) \<or> (v, u) \<in> set (combinations2 umis))
        \<longleftrightarrow> (u \<in> set umis \<and> v \<in> set umis \<and> v \<noteq> u)" for u v
    using combinations2_total [of u umis v] combinations2_subset [of u v umis]
      combinations2_subset [of v u umis] combinations2_irrefl [OF assms(1), of u]
    by auto
  have "\<forall>u. nbrs adj u = {v. u \<in> set umis \<and> v \<in> set umis \<and> v \<noteq> u \<and> admits counts t u v}"
    using n pairs by (auto simp: nbrs_init)
  moreover have "map fst adj = umis" using k by (simp add: comp_def)
  ultimately show ?thesis using a init by (simp add: get_adj_list_directional_def)
qed

section \<open>The connected components\<close>

lemma sorted_by_count_desc_ok:
  "set xs \<subseteq> fst ` set counts \<Longrightarrow>
     sorted_by_count_desc counts xs = Some (sort_key (\<lambda>x. - count_of counts x) xs)"
  by (auto simp: sorted_by_count_desc_def list_all_iff map_of_eq_None_iff)

lemma component_fold_ok:
  assumes "closed_graph graph" "set nodes \<subseteq> fst ` set graph"
  shows "\<exists>found' new. fold_opt (component_step so graph) nodes (found, comps)
             = Some (found', comps @ new)
           \<and> map set new = map (reach graph) (starts (reach graph) nodes (set found))
           \<and> (\<forall>c\<in>set new. distinct c)"
  using assms(2)
proof (induction nodes arbitrary: found comps)
  case Nil
  then show ?case by simp
next
  case (Cons n nodes)
  show ?case
  proof (cases "n \<in> set found")
    case True
    from Cons.IH [of found comps] Cons.prems True show ?thesis by simp
  next
    case False
    have "n \<in> fst ` set graph" using Cons.prems by simp
    from breadth_first_search_correct [OF assms(1) this, of so]
    obtain r where r: "breadth_first_search so n graph = Some r" "distinct r"
      "set r = reach graph n" by blast
    let ?found1 = "set_update (set_iter so r) found"
    have f1: "set ?found1 = set found \<union> reach graph n"
      using r by (auto simp: set_set_update set_set_iter)
    from Cons.IH [of ?found1 "comps @ [r]"] Cons.prems
    obtain found' new where
      n: "fold_opt (component_step so graph) nodes (?found1, comps @ [r])
             = Some (found', (comps @ [r]) @ new)"
      "map set new = map (reach graph) (starts (reach graph) nodes (set ?found1))"
      "\<forall>c\<in>set new. distinct c" by auto
    have "fold_opt (component_step so graph) (n # nodes) (found, comps)
             = Some (found', comps @ (r # new))"
      using False r n(1) by simp
    moreover have "map set (r # new)
         = map (reach graph) (starts (reach graph) (n # nodes) (set found))"
      using False r n(2) f1 by simp
    moreover have "\<forall>c\<in>set (r # new). distinct c" using r n(3) by simp
    ultimately show ?thesis by blast
  qed
qed

lemma get_connected_components_adjacency_ok:
  assumes "closed_graph graph" "fst ` set graph \<subseteq> fst ` set counts"
  shows "\<exists>comps. get_connected_components_adjacency so umis graph counts = Some comps
           \<and> map set comps = map (reach graph)
                (starts (reach graph) (sort_key (\<lambda>x. - count_of counts x) (map fst graph)) {})
           \<and> (\<forall>c\<in>set comps. distinct c)"
proof -
  let ?nodes = "sort_key (\<lambda>x. - count_of counts x) (map fst graph)"
  have s: "sorted_by_count_desc counts (map fst graph) = Some ?nodes"
    using assms(2) by (intro sorted_by_count_desc_ok) auto
  have "set ?nodes \<subseteq> fst ` set graph" by simp
  from component_fold_ok [OF assms(1) this, of so "[]" "[]"]
  obtain found' new where
    "fold_opt (component_step so graph) ?nodes ([], []) = Some (found', new)"
    "map set new = map (reach graph) (starts (reach graph) ?nodes {})"
    "\<forall>c\<in>set new. distinct c" by auto
  with s show ?thesis by (simp add: get_connected_components_adjacency_def)
qed

lemma reach_refl: "n \<in> reach adj n"
  by (simp add: reach_def)

lemma starts_subset: "set (starts R ns F) \<subseteq> set ns - F"
  by (induction ns arbitrary: F) auto

lemma starts_cover:
  "(\<And>n. n \<in> R n) \<Longrightarrow> set ns \<subseteq> F \<union> (\<Union>s\<in>set (starts R ns F). R s)"
proof (induction ns arbitrary: F)
  case Nil
  then show ?case by simp
next
  case (Cons n ns)
  from Cons.IH [of F] Cons.IH [of "F \<union> R n"] Cons.prems [of n] Cons.prems
  show ?case by auto
qed

lemma starts_fresh:
  "(\<And>n. n \<in> R n) \<Longrightarrow> i < length (starts R ns F) \<Longrightarrow>
     starts R ns F ! i \<notin> F \<union> (\<Union>s\<in>set (take i (starts R ns F)). R s)"
proof (induction ns arbitrary: F i)
  case Nil
  then show ?case by simp
next
  case (Cons n ns)
  show ?case
  proof (cases "n \<in> F")
    case True
    with Cons show ?thesis by simp
  next
    case False
    show ?thesis
    proof (cases i)
      case 0
      with False show ?thesis by simp
    next
      case (Suc j)
      with Cons.prems False have "j < length (starts R ns (F \<union> R n))" by simp
      from Cons.IH [OF Cons.prems(1) this] False Suc show ?thesis by simp
    qed
  qed
qed

lemma starts_priority:
  assumes "\<And>n. n \<in> R n" "sorted (map key ns)"
    and "i < length (starts R ns F)" "u \<in> set ns"
    and "u \<notin> F \<union> (\<Union>s\<in>set (take i (starts R ns F)). R s)"
  shows "(key (starts R ns F ! i) :: int) \<le> key u"
  using assms(2-)
proof (induction ns arbitrary: F i)
  case Nil
  then show ?case by simp
next
  case (Cons n ns)
  have le: "\<forall>x\<in>set ns. key n \<le> key x" and srt: "sorted (map key ns)"
    using Cons.prems(1) by auto
  show ?case
  proof (cases "n \<in> F")
    case True
    with Cons.prems have "u \<in> set ns" by auto
    with Cons.IH [OF srt, of i F] Cons.prems True show ?thesis by simp
  next
    case False
    show ?thesis
    proof (cases i)
      case 0
      with False le Cons.prems show ?thesis by auto
    next
      case (Suc j)
      with Cons.prems False assms(1) [of n] have "u \<noteq> n" by auto
      with Cons.prems have "u \<in> set ns" by simp
      with Cons.IH [OF srt, of j "F \<union> R n"] Cons.prems False Suc show ?thesis by simp
    qed
  qed
qed

section \<open>The directional groups\<close>

lemma fold_claim_node:
  "distinct xs \<Longrightarrow> fold claim_node xs (obs, temp) = (obs', temp') \<Longrightarrow>
     temp' = temp @ filter (\<lambda>n. n \<notin> set obs) xs \<and> set obs' = set obs \<union> set xs"
proof (induction xs arbitrary: obs temp)
  case Nil
  then show ?case by simp
next
  case (Cons n xs)
  show ?case
  proof (cases "n \<in> set obs")
    case True
    with Cons.prems have "fold claim_node xs (obs, temp) = (obs', temp')" by simp
    from Cons.IH [OF _ this] Cons.prems(1) True show ?thesis by auto
  next
    case False
    with Cons.prems have "fold claim_node xs (set_add n obs, temp @ [n]) = (obs', temp')"
      by simp
    from Cons.IH [OF _ this] Cons.prems(1)
    have t: "temp' = (temp @ [n]) @ filter (\<lambda>x. x \<notin> set (set_add n obs)) xs"
      and o: "set obs' = set (set_add n obs) \<union> set xs" by auto
    have "filter (\<lambda>x. x \<notin> set (set_add n obs)) xs = filter (\<lambda>x. x \<notin> set obs) xs"
      using Cons.prems(1) by (intro filter_cong) (auto simp: set_set_add)
    with t o False show ?thesis by (auto simp: set_set_add)
  qed
qed

lemma group_step_ok:
  assumes "distinct c" "set c \<subseteq> fst ` set counts"
  shows "\<exists>obs'. group_step so counts c (observed, groups)
            = Some (obs', groups @ [group_of so counts (set observed) c])
          \<and> set obs' = set observed \<union> set c"
proof (cases "length c = 1")
  case True
  then show ?thesis by (simp add: group_of_def set_set_update set_set_iter Un_commute)
next
  case False
  let ?xs = "sort_key (\<lambda>x. - count_of counts x) (set_iter so c)"
  have s: "sorted_by_count_desc counts (set_iter so c) = Some ?xs"
    using assms(2) by (intro sorted_by_count_desc_ok) (simp add: set_set_iter)
  have d: "distinct ?xs" using assms(1) by (simp add: distinct_set_iter)
  obtain obs' temp where f: "fold claim_node ?xs (observed, []) = (obs', temp)"
    by (cases "fold claim_node ?xs (observed, [])")
  from fold_claim_node [OF d f]
  have "temp = filter (\<lambda>n. n \<notin> set observed) ?xs" "set obs' = set observed \<union> set c"
    by (simp_all add: set_set_iter)
  with False s f show ?thesis by (simp add: group_of_def)
qed

lemma group_fold_ok:
  assumes "\<forall>c\<in>set clusters. distinct c \<and> set c \<subseteq> fst ` set counts"
  shows "\<exists>obs'. fold_opt (group_step so counts) clusters (observed, groups)
            = Some (obs', groups @ groups_of so counts (set observed) clusters)"
  using assms
proof (induction clusters arbitrary: observed groups)
  case Nil
  then show ?case by simp
next
  case (Cons c cs)
  from Cons.prems have c: "distinct c" "set c \<subseteq> fst ` set counts" by auto
  from group_step_ok [OF c, of so observed groups] obtain obs1 where
    s: "group_step so counts c (observed, groups)
            = Some (obs1, groups @ [group_of so counts (set observed) c])"
    and o: "set obs1 = set observed \<union> set c" by blast
  from Cons.IH [of obs1 "groups @ [group_of so counts (set observed) c]"] Cons.prems
  obtain obs' where "fold_opt (group_step so counts) cs
       (obs1, groups @ [group_of so counts (set observed) c])
     = Some (obs', (groups @ [group_of so counts (set observed) c])
          @ groups_of so counts (set obs1) cs)" by auto
  with s o show ?case by simp
qed

lemma group_directional_ok:
  assumes "\<forall>c\<in>set clusters. distinct c \<and> set c \<subseteq> fst ` set counts"
  shows "group_directional so clusters adj counts = Some (groups_of so counts {} clusters)"
  using group_fold_ok [OF assms, of so "[]" "[]"] by (auto simp: group_directional_def)

lemma set_group_of: "distinct c \<Longrightarrow> \<exists>s\<in>set c. s \<notin> obs \<Longrightarrow>
    set (group_of so counts obs c) = set c - obs"
proof (cases "length c = 1")
  case True
  assume "\<exists>s\<in>set c. s \<notin> obs"
  moreover from True obtain x where "c = [x]" by (cases c) auto
  ultimately show ?thesis by (auto simp: group_of_def set_set_iter)
next
  case False
  then show ?thesis by (auto simp: group_of_def set_set_iter)
qed

lemma distinct_group_of: "distinct c \<Longrightarrow> distinct (group_of so counts obs c)"
  by (simp add: group_of_def distinct_set_iter)

lemma groups_of_partition:
  assumes "fresh obs cs" "\<forall>c\<in>set cs. distinct c"
  shows "(\<forall>g\<in>set (groups_of so counts obs cs). g \<noteq> [])
       \<and> distinct (concat (groups_of so counts obs cs))
       \<and> set (concat (groups_of so counts obs cs)) = (\<Union>c\<in>set cs. set c) - obs"
  using assms
proof (induction cs arbitrary: obs)
  case Nil
  then show ?case by simp
next
  case (Cons c cs)
  from Cons.prems have c: "distinct c" "\<exists>s\<in>set c. s \<notin> obs" by auto
  have g: "set (group_of so counts obs c) = set c - obs"
    by (rule set_group_of [OF c])
  have ne: "group_of so counts obs c \<noteq> []" using g c(2) by auto
  from Cons.IH [of "obs \<union> set c"] Cons.prems
  have ih: "\<forall>g\<in>set (groups_of so counts (obs \<union> set c) cs). g \<noteq> []"
    "distinct (concat (groups_of so counts (obs \<union> set c) cs))"
    "set (concat (groups_of so counts (obs \<union> set c) cs)) = (\<Union>c\<in>set cs. set c) - (obs \<union> set c)"
    by auto
  have "distinct (concat (groups_of so counts obs (c # cs)))"
    using ih(2,3) g distinct_group_of [OF c(1), of so counts obs] by auto
  moreover have "set (concat (groups_of so counts obs (c # cs)))
       = (\<Union>c\<in>set (c # cs). set c) - obs"
    using ih(3) g by auto
  ultimately show ?case using ne ih(1) by simp
qed

lemma group_of_hd_max:
  assumes "z \<in> set (group_of so counts obs c)"
  shows "count_of counts z \<le> count_of counts (hd (group_of so counts obs c))"
proof (cases "length c = 1")
  case True
  then obtain x where "c = [x]" by (cases c) auto
  with assms show ?thesis by (simp add: group_of_def set_iter_def)
next
  case False
  let ?f = "\<lambda>x. - count_of counts x"
  let ?g = "filter (\<lambda>n. n \<notin> obs) (sort_key ?f (set_iter so c))"
  have g: "group_of so counts obs c = ?g" using False by (simp add: group_of_def)
  have "sorted (map ?f ?g)" by (intro sorted_filter sorted_sort_key)
  moreover from assms g obtain y ys where ys: "?g = y # ys" by (cases ?g) auto
  ultimately have "\<forall>x\<in>set ?g. ?f y \<le> ?f x" by auto
  with assms g ys show ?thesis by auto
qed

lemma groups_of_member:
  "g \<in> set (groups_of so counts obs cs) \<Longrightarrow> \<exists>obs' c. g = group_of so counts obs' c"
  by (induction cs arbitrary: obs) auto

lemma fresh_components:
  "(\<And>n. n \<in> R n) \<Longrightarrow> map set comps = map R (starts R ns F) \<Longrightarrow> fresh F comps"
proof (induction ns arbitrary: F comps)
  case Nil
  then show ?case by simp
next
  case (Cons n ns)
  show ?case
  proof (cases "n \<in> F")
    case True
    with Cons show ?thesis by simp
  next
    case False
    with Cons.prems(2) obtain c cs where c: "comps = c # cs" "set c = R n"
      "map set cs = map R (starts R ns (F \<union> R n))" by (cases comps) auto
    from Cons.IH [OF Cons.prems(1) c(3)] have "fresh (F \<union> set c) cs" using c(2) by simp
    moreover have "n \<in> set c" "n \<notin> F" using c(2) Cons.prems(1) False by auto
    ultimately show ?thesis using c(1) by auto
  qed
qed

section \<open>The pipeline of cluster\<close>

lemma nbrs_closed: "closed_graph adj \<Longrightarrow> nbrs adj u \<subseteq> fst ` set adj"
  by (auto simp: closed_graph_def nbrs_def split: option.splits dest!: map_of_SomeD)

lemma reach_subset_keys:
  assumes "closed_graph adj" "s \<in> fst ` set adj"
  shows "reach adj s \<subseteq> fst ` set adj"
  by (rule reach_least [OF assms(2)]) (use nbrs_closed [OF assms(1)] in blast)

lemma closed_graph_adj:
  assumes "distinct (map fst adj)"
    and "\<forall>u. nbrs adj u \<subseteq> fst ` set adj"
  shows "closed_graph adj"
  unfolding closed_graph_def
proof (clarify)
  fix k ns x assume "(k, ns) \<in> set adj" "x \<in> set ns"
  then have "x \<in> nbrs adj k" using assms(1) by (simp add: nbrs_def)
  with assms(2) show "x \<in> fst ` set adj" by blast
qed

lemma components_cover:
  assumes "closed_graph graph"
    and "map set comps = map (reach graph) (starts (reach graph) nodes {})"
    and "set nodes = fst ` set graph"
  shows "(\<Union>c\<in>set comps. set c) = fst ` set graph"
proof -
  let ?ss = "starts (reach graph) nodes {}"
  have "(\<Union>c\<in>set comps. set c) = \<Union> (set (map set comps))" by simp
  also have "\<dots> = (\<Union>s\<in>set ?ss. reach graph s)" unfolding assms(2) by simp
  finally have u: "(\<Union>c\<in>set comps. set c) = (\<Union>s\<in>set ?ss. reach graph s)" .
  have "set ?ss \<subseteq> fst ` set graph" using starts_subset [of "reach graph" nodes "{}"] assms(3) by auto
  then have "(\<Union>s\<in>set ?ss. reach graph s) \<subseteq> fst ` set graph"
    using reach_subset_keys [OF assms(1)] by blast
  moreover have "set nodes \<subseteq> {} \<union> (\<Union>s\<in>set ?ss. reach graph s)"
    by (rule starts_cover) (rule reach_refl)
  ultimately show ?thesis using u assms(3) by auto
qed

lemma cluster_ok:
  assumes "distinct (map fst counts)"
  shows "\<exists>adj comps.
           get_adj_list_directional (map fst counts) counts t = Some adj
         \<and> get_connected_components_adjacency so (map fst counts) adj counts = Some comps
         \<and> cluster so counts t = Some (groups_of so counts {} comps)
         \<and> map fst adj = map fst counts \<and> closed_graph adj
         \<and> map set comps = map (reach adj)
              (starts (reach adj) (sort_key (\<lambda>x. - count_of counts x) (map fst adj)) {})
         \<and> (\<forall>c\<in>set comps. distinct c) \<and> fresh {} comps
         \<and> (\<Union>c\<in>set comps. set c) = fst ` set counts"
proof -
  have sub: "set (map fst counts) \<subseteq> fst ` set counts" by simp
  from get_adj_list_directional_ok [OF assms sub, of t] obtain adj where
    a: "get_adj_list_directional (map fst counts) counts t = Some adj"
    and k: "map fst adj = map fst counts"
    and n: "\<forall>u. nbrs adj u = {v. u \<in> set (map fst counts) \<and> v \<in> set (map fst counts)
                  \<and> v \<noteq> u \<and> admits counts t u v}" by blast
  have keys: "fst ` set adj = fst ` set counts" using k by (metis set_map)
  have cg: "closed_graph adj"
    by (rule closed_graph_adj) (use assms k n keys in auto)
  from get_connected_components_adjacency_ok [OF cg, of counts so "map fst counts"] keys
  obtain comps where
    c: "get_connected_components_adjacency so (map fst counts) adj counts = Some comps"
    and m: "map set comps = map (reach adj)
              (starts (reach adj) (sort_key (\<lambda>x. - count_of counts x) (map fst adj)) {})"
    and d: "\<forall>c\<in>set comps. distinct c" by auto
  have cov: "(\<Union>c\<in>set comps. set c) = fst ` set adj"
    by (rule components_cover [OF cg m]) simp
  have fr: "fresh {} comps"
    by (rule fresh_components [OF _ m]) (rule reach_refl)
  have "\<forall>c\<in>set comps. distinct c \<and> set c \<subseteq> fst ` set counts"
    using d cov keys by auto
  from group_directional_ok [OF this, of so adj]
  have "cluster so counts t = Some (groups_of so counts {} comps)"
    using a c by (simp add: cluster_def)
  with a c k cg m d fr cov keys show ?thesis by auto
qed

lemma distinct_concat_disjoint:
  "distinct (concat xss) \<Longrightarrow> i < j \<Longrightarrow> j < length xss \<Longrightarrow> set (xss ! i) \<inter> set (xss ! j) = {}"
proof (induction xss arbitrary: i j)
  case Nil
  then show ?case by simp
next
  case (Cons x xss)
  from Cons.prems obtain j' where j: "j = Suc j'" "j' < length xss" by (cases j) auto
  show ?case
  proof (cases i)
    case 0
    have "xss ! j' \<in> set xss" using j by simp
    then have "set (xss ! j') \<subseteq> set (concat xss)" by auto
    with Cons.prems(1) 0 j show ?thesis by auto
  next
    case (Suc i')
    with Cons.IH [of i' j'] Cons.prems j show ?thesis by simp
  qed
qed

lemma distinct_concat_unique_index:
  assumes "distinct (concat xss)" "i < length xss" "j < length xss"
    and "u \<in> set (xss ! i)" "u \<in> set (xss ! j)"
  shows "i = j"
proof (rule ccontr)
  assume "i \<noteq> j"
  then consider "i < j" | "j < i" by linarith
  then show False
  proof cases
    case 1
    from distinct_concat_disjoint [OF assms(1) 1 assms(3)] assms(4,5) show False by auto
  next
    case 2
    from distinct_concat_disjoint [OF assms(1) 2 assms(2)] assms(4,5) show False by auto
  qed
qed

section \<open>The clusters partition the UMIs\<close>

lemma fold_map_entry:
  "fold_opt (map_entry (x0 # xs)) ys m = Some (fold (\<lambda>y. AList.update y x0) ys m)"
  by (induction ys arbitrary: m) auto

lemma map_of_fold_update:
  "map_of (fold (\<lambda>y. AList.update y v) ys m) k = (if k \<in> set ys then Some v else map_of m k)"
  by (induction ys arbitrary: m) (auto simp: update_conv')

lemma cluster_entries:
  "\<exists>m'. fold_opt (map_entry x) x m = Some m'
     \<and> (\<forall>k. map_of m' k = (if k \<in> set x then Some (hd x) else map_of m k))"
proof (cases x)
  case Nil
  then show ?thesis by simp
next
  case (Cons x0 xs)
  have "fold_opt (map_entry x) x m = Some (fold (\<lambda>y. AList.update y x0) x m)"
    unfolding Cons by (rule fold_map_entry)
  moreover have "\<forall>k. map_of (fold (\<lambda>y. AList.update y x0) x m) k
        = (if k \<in> set x then Some (hd x) else map_of m k)"
    unfolding map_of_fold_update using Cons by simp
  ultimately show ?thesis by blast
qed

lemma create_map_fold:
  assumes "distinct (concat cl)"
  shows "\<exists>m'. fold_opt (\<lambda>x. fold_opt (map_entry x) x) cl m = Some m'
     \<and> (\<forall>c\<in>set cl. \<forall>k\<in>set c. map_of m' k = Some (hd c))
     \<and> (\<forall>k. k \<notin> set (concat cl) \<longrightarrow> map_of m' k = map_of m k)"
  using assms
proof (induction cl arbitrary: m)
  case Nil
  then show ?case by simp
next
  case (Cons x cl)
  from cluster_entries [of x m] obtain m1 where
    m1: "fold_opt (map_entry x) x m = Some m1"
    "\<forall>k. map_of m1 k = (if k \<in> set x then Some (hd x) else map_of m k)" by blast
  from Cons.IH [of m1] Cons.prems obtain m' where
    m': "fold_opt (\<lambda>x. fold_opt (map_entry x) x) cl m1 = Some m'"
    "\<forall>c\<in>set cl. \<forall>k\<in>set c. map_of m' k = Some (hd c)"
    "\<forall>k. k \<notin> set (concat cl) \<longrightarrow> map_of m' k = map_of m1 k" by auto
  have "map_of m' k = Some (hd x)" if "k \<in> set x" for k
  proof -
    from that Cons.prems have "k \<notin> set (concat cl)" by auto
    with m'(3) have "map_of m' k = map_of m1 k" by blast
    with m1(2) that show ?thesis by simp
  qed
  moreover have "map_of m' k = map_of m k" if "k \<notin> set (concat (x # cl))" for k
  proof -
    from that have "k \<notin> set (concat cl)" "k \<notin> set x" by auto
    with m'(3) m1(2) show ?thesis by simp
  qed
  ultimately show ?case using m1(1) m'(1,2) by simp
qed

lemma create_map_to_correct_umi_ok:
  assumes "distinct (concat cl)"
  shows "\<exists>m. create_map_to_correct_umi cl = Some m
     \<and> (\<forall>c\<in>set cl. \<forall>k\<in>set c. map_of m k = Some (hd c))"
  using create_map_fold [OF assms, of "[]"] by (auto simp: create_map_to_correct_umi_def)

lemma cluster_groups:
  assumes "distinct (map fst counts)"
  shows "\<exists>cl. cluster so counts t = Some cl
           \<and> (\<forall>c\<in>set cl. c \<noteq> [])
           \<and> distinct (concat cl)
           \<and> set (concat cl) = fst ` set counts
           \<and> (\<forall>c\<in>set cl. \<forall>z\<in>set c. count_of counts z \<le> count_of counts (hd c))"
proof -
  from cluster_ok [OF assms, of t so] obtain comps where
    c: "cluster so counts t = Some (groups_of so counts {} comps)"
    and d: "\<forall>c\<in>set comps. distinct c" and f: "fresh {} comps"
    and u: "(\<Union>c\<in>set comps. set c) = fst ` set counts" by blast
  from groups_of_partition [OF f d, of so counts] u
  have p: "\<forall>g\<in>set (groups_of so counts {} comps). g \<noteq> []"
    "distinct (concat (groups_of so counts {} comps))"
    "set (concat (groups_of so counts {} comps)) = fst ` set counts" by auto
  have "\<forall>g\<in>set (groups_of so counts {} comps). \<forall>z\<in>set g.
          count_of counts z \<le> count_of counts (hd g)"
    using groups_of_member group_of_hd_max by blast
  with c p show ?thesis by simp
qed

text \<open>
  C1. For every UMI count dictionary (its keys are distinct, as a dictionary's are), every
  threshold and every behaviour of the sets, \<open>cluster\<close> returns a list of clusters in which
  no UMI occurs twice, whose union is the set of keys of the dictionary, and every key
  lies in exactly one cluster.
\<close>

theorem cluster_partition:
  assumes "distinct (map fst counts)"
  shows "\<exists>cl. cluster so counts t = Some cl
           \<and> distinct (concat cl)
           \<and> (\<Union>c\<in>set cl. set c) = fst ` set counts
           \<and> (\<forall>u\<in>fst ` set counts. \<exists>!i. i < length cl \<and> u \<in> set (cl ! i))"
proof -
  from cluster_groups [OF assms, of so t] obtain cl where
    cl: "cluster so counts t = Some cl" "distinct (concat cl)"
    "set (concat cl) = fst ` set counts" by blast
  have "\<exists>!i. i < length cl \<and> u \<in> set (cl ! i)" if "u \<in> fst ` set counts" for u
  proof -
    from that cl(3) have "u \<in> set (concat cl)" by simp
    then obtain c where "c \<in> set cl" "u \<in> set c" by auto
    then obtain i where "i < length cl" "u \<in> set (cl ! i)" by (metis in_set_conv_nth)
    then show ?thesis
      using distinct_concat_unique_index [OF cl(2)] by (intro ex1I [of _ i]) auto
  qed
  with cl show ?thesis by auto
qed

theorem cluster_partition_witness:
  "distinct (map fst [(''AAAAA'', 100 :: int), (''AAAAT'', 5), (''TTTTT'', 50)])
   \<and> cluster fifo_order [(''AAAAA'', 100), (''AAAAT'', 5), (''TTTTT'', 50)] 2
       = Some [[''AAAAA'', ''AAAAT''], [''TTTTT'']]
   \<and> (\<exists>cl. cluster fifo_order [(''AAAAA'', 100), (''AAAAT'', 5), (''TTTTT'', 50)] 2 = Some cl
           \<and> distinct (concat cl)
           \<and> (\<Union>c\<in>set cl. set c) = fst ` set [(''AAAAA'', 100 :: int), (''AAAAT'', 5), (''TTTTT'', 50)]
           \<and> (\<forall>u\<in>fst ` set [(''AAAAA'', 100 :: int), (''AAAAT'', 5), (''TTTTT'', 50)].
                 \<exists>!i. i < length cl \<and> u \<in> set (cl ! i)))"
proof -
  have h: "distinct (map fst [(''AAAAA'', 100 :: int), (''AAAAT'', 5), (''TTTTT'', 50)])"
    by simp
  have e: "cluster fifo_order [(''AAAAA'', 100), (''AAAAT'', 5), (''TTTTT'', 50)] 2
       = Some [[''AAAAA'', ''AAAAT''], [''TTTTT'']]"
    by code_simp
  from cluster_partition [OF h, of fifo_order 2] h e show ?thesis by blast
qed

section \<open>Representatives and edges\<close>

text \<open>
  C9. Every cluster that \<open>group_directional\<close> emits inside \<open>cluster\<close> is a non-empty list,
  and \<open>create_map_to_correct_umi\<close> returns a map on the cluster list (its \<open>x[0]\<close> never
  raises \<open>IndexError\<close>).
\<close>

theorem clusters_nonempty:
  assumes "distinct (map fst counts)"
  shows "\<exists>cl m. cluster so counts t = Some cl \<and> (\<forall>c\<in>set cl. c \<noteq> [])
           \<and> create_map_to_correct_umi cl = Some m"
proof -
  from cluster_groups [OF assms, of so t] obtain cl where
    cl: "cluster so counts t = Some cl" "\<forall>c\<in>set cl. c \<noteq> []" "distinct (concat cl)"
    by blast
  from create_map_to_correct_umi_ok [OF cl(3)] cl(1,2) show ?thesis by blast
qed

theorem clusters_nonempty_witness:
  "distinct (map fst [(''AA'', 100 :: int), (''CC'', 60), (''AC'', 30)])
   \<and> cluster lifo_order [(''AA'', 100), (''CC'', 60), (''AC'', 30)] 1
       = Some [[''AA'', ''AC''], [''CC'']]
   \<and> (\<exists>cl m. cluster lifo_order [(''AA'', 100), (''CC'', 60), (''AC'', 30)] 1 = Some cl
         \<and> (\<forall>c\<in>set cl. c \<noteq> []) \<and> create_map_to_correct_umi cl = Some m)"
proof -
  have h: "distinct (map fst [(''AA'', 100 :: int), (''CC'', 60), (''AC'', 30)])" by simp
  have e: "cluster lifo_order [(''AA'', 100), (''CC'', 60), (''AC'', 30)] 1
       = Some [[''AA'', ''AC''], [''CC'']]"
    by code_simp
  from clusters_nonempty [OF h, of lifo_order 1] h e show ?thesis by blast
qed

text \<open>
  C2. The correction map built from the clusters of \<open>cluster\<close> sends every member of a
  cluster to the first element of that cluster; the first element is a member of the
  cluster and no member has a higher count. Hence a UMI is never mapped to a UMI of its
  cluster with a strictly lower count.
\<close>

theorem correction_map_representative:
  assumes "distinct (map fst counts)"
  shows "\<exists>cl m. cluster so counts t = Some cl \<and> create_map_to_correct_umi cl = Some m
           \<and> (\<forall>c\<in>set cl. \<forall>y\<in>set c.
                 map_of m y = Some (hd c) \<and> hd c \<in> set c
               \<and> count_of counts y \<le> count_of counts (hd c))
           \<and> (\<forall>c\<in>set cl. \<forall>a\<in>set c. \<forall>b\<in>set c.
                 count_of counts b < count_of counts a \<longrightarrow> map_of m a \<noteq> Some b)"
proof -
  from cluster_groups [OF assms, of so t] obtain cl where
    cl: "cluster so counts t = Some cl" "\<forall>c\<in>set cl. c \<noteq> []" "distinct (concat cl)"
    "\<forall>c\<in>set cl. \<forall>z\<in>set c. count_of counts z \<le> count_of counts (hd c)"
    by blast
  from create_map_to_correct_umi_ok [OF cl(3)] obtain m where
    m: "create_map_to_correct_umi cl = Some m"
    "\<forall>c\<in>set cl. \<forall>k\<in>set c. map_of m k = Some (hd c)" by blast
  have hd: "\<forall>c\<in>set cl. hd c \<in> set c" using cl(2) by simp
  have "map_of m a \<noteq> Some b"
    if "c \<in> set cl" "a \<in> set c" "b \<in> set c" "count_of counts b < count_of counts a"
    for c a b
  proof
    assume "map_of m a = Some b"
    with m(2) that(1,2) have "b = hd c" by auto
    with cl(4) that show False by fastforce
  qed
  with cl(1,4) m hd show ?thesis by blast
qed

theorem correction_map_representative_witness:
  "distinct (map fst [(''AAAAA'', 100 :: int), (''AAAAT'', 5), (''TTTTT'', 50)])
   \<and> correction_map lifo_order [(''AAAAA'', 100), (''AAAAT'', 5), (''TTTTT'', 50)]
       = Some [(''AAAAA'', ''AAAAA''), (''AAAAT'', ''AAAAA''), (''TTTTT'', ''TTTTT'')]
   \<and> (\<exists>cl m. cluster lifo_order [(''AAAAA'', 100), (''AAAAT'', 5), (''TTTTT'', 50)] 3 = Some cl
           \<and> create_map_to_correct_umi cl = Some m
           \<and> (\<forall>c\<in>set cl. \<forall>y\<in>set c.
                 map_of m y = Some (hd c) \<and> hd c \<in> set c
               \<and> count_of [(''AAAAA'', 100), (''AAAAT'', 5), (''TTTTT'', 50)] y
                   \<le> count_of [(''AAAAA'', 100), (''AAAAT'', 5), (''TTTTT'', 50)] (hd c))
           \<and> (\<forall>c\<in>set cl. \<forall>a\<in>set c. \<forall>b\<in>set c.
                 count_of [(''AAAAA'', 100), (''AAAAT'', 5), (''TTTTT'', 50)] b
                   < count_of [(''AAAAA'', 100), (''AAAAT'', 5), (''TTTTT'', 50)] a
                 \<longrightarrow> map_of m a \<noteq> Some b))"
proof -
  have h: "distinct (map fst [(''AAAAA'', 100 :: int), (''AAAAT'', 5), (''TTTTT'', 50)])"
    by simp
  have e: "correction_map lifo_order [(''AAAAA'', 100), (''AAAAT'', 5), (''TTTTT'', 50)]
       = Some [(''AAAAA'', ''AAAAA''), (''AAAAT'', ''AAAAA''), (''TTTTT'', ''TTTTT'')]"
    by code_simp
  from correction_map_representative [OF h, of lifo_order 3] h e show ?thesis by blast
qed

lemma nbrs_map_of:
  "u \<in> fst ` set adj \<Longrightarrow> \<exists>ns. map_of adj u = Some ns \<and> nbrs adj u = set ns"
  by (cases "map_of adj u") (auto simp: nbrs_def map_of_eq_None_iff)

text \<open>
  C4. For every UMI count dictionary and every threshold \<open>t\<close>, \<open>get_adj_list_directional\<close>
  on the keys of the dictionary returns an adjacency structure with exactly those keys, in
  their order, and for two different UMIs \<open>u\<close> and \<open>v\<close> of the dictionary, \<open>v\<close> is in the
  neighbour list of \<open>u\<close> if and only if their Levenshtein distance is at most \<open>t\<close> and
  \<open>count(u) \<ge> 2 * count(v) - 1\<close>. Each direction is decided on its own; a neighbour list
  holds only other UMIs of the dictionary, so a UMI with no admitted edge has the empty
  list.
\<close>

theorem adjacency_directional_edges:
  assumes "distinct (map fst counts)"
  shows "\<exists>adj. get_adj_list_directional (map fst counts) counts t = Some adj
           \<and> map fst adj = map fst counts
           \<and> (\<forall>u\<in>fst ` set counts. \<exists>ns. map_of adj u = Some ns
                \<and> (\<forall>v. v \<in> set ns \<longleftrightarrow>
                      v \<in> fst ` set counts \<and> v \<noteq> u
                    \<and> int (edit_distance u v) \<le> t
                    \<and> count_of counts u \<ge> 2 * count_of counts v - 1))"
proof -
  have sub: "set (map fst counts) \<subseteq> fst ` set counts" by simp
  from get_adj_list_directional_ok [OF assms sub, of t] obtain adj where
    a: "get_adj_list_directional (map fst counts) counts t = Some adj"
    and k: "map fst adj = map fst counts"
    and n: "\<forall>u. nbrs adj u = {v. u \<in> set (map fst counts) \<and> v \<in> set (map fst counts)
                  \<and> v \<noteq> u \<and> admits counts t u v}" by blast
  have keys: "fst ` set adj = fst ` set counts" using k by (metis set_map)
  have "\<exists>ns. map_of adj u = Some ns
                \<and> (\<forall>v. v \<in> set ns \<longleftrightarrow>
                      v \<in> fst ` set counts \<and> v \<noteq> u
                    \<and> int (edit_distance u v) \<le> t
                    \<and> count_of counts u \<ge> 2 * count_of counts v - 1)"
    if u: "u \<in> fst ` set counts" for u
  proof -
    from u keys nbrs_map_of [of u adj] obtain ns where
      ns: "map_of adj u = Some ns" "nbrs adj u = set ns" by auto
    from n ns(2) u have "set ns = {v. v \<in> fst ` set counts \<and> v \<noteq> u \<and> admits counts t u v}"
      by auto
    then show ?thesis using ns(1) by (auto simp: admits_def)
  qed
  with a k show ?thesis by blast
qed

theorem adjacency_directional_edges_witness:
  "distinct (map fst [(''AA'', 100 :: int), (''CC'', 60), (''AC'', 30)])
   \<and> get_adj_list_directional (map fst [(''AA'', 100 :: int), (''CC'', 60), (''AC'', 30)])
         [(''AA'', 100), (''CC'', 60), (''AC'', 30)] 1
       = Some [(''AA'', [''AC'']), (''CC'', [''AC'']), (''AC'', [])]
   \<and> (\<exists>adj. get_adj_list_directional (map fst [(''AA'', 100 :: int), (''CC'', 60), (''AC'', 30)])
              [(''AA'', 100), (''CC'', 60), (''AC'', 30)] 1 = Some adj
           \<and> map fst adj = map fst [(''AA'', 100 :: int), (''CC'', 60), (''AC'', 30)]
           \<and> (\<forall>u\<in>fst ` set [(''AA'', 100 :: int), (''CC'', 60), (''AC'', 30)].
                \<exists>ns. map_of adj u = Some ns
                \<and> (\<forall>v. v \<in> set ns \<longleftrightarrow>
                      v \<in> fst ` set [(''AA'', 100 :: int), (''CC'', 60), (''AC'', 30)] \<and> v \<noteq> u
                    \<and> int (edit_distance u v) \<le> 1
                    \<and> count_of [(''AA'', 100), (''CC'', 60), (''AC'', 30)] u
                        \<ge> 2 * count_of [(''AA'', 100), (''CC'', 60), (''AC'', 30)] v - 1)))"
proof -
  have h: "distinct (map fst [(''AA'', 100 :: int), (''CC'', 60), (''AC'', 30)])" by simp
  have e: "get_adj_list_directional (map fst [(''AA'', 100 :: int), (''CC'', 60), (''AC'', 30)])
         [(''AA'', 100), (''CC'', 60), (''AC'', 30)] 1
       = Some [(''AA'', [''AC'']), (''CC'', [''AC'']), (''AC'', [])]"
    by code_simp
  from adjacency_directional_edges [OF h, of 1] h e show ?thesis by blast
qed

section \<open>Components follow the directed edges\<close>

lemma take_components:
  assumes "map set comps = map R ss"
  shows "(\<Union>c\<in>set (take i comps). set c) = (\<Union>s\<in>set (take i ss). R s)"
proof -
  have "map set (take i comps) = take i (map set comps)" by (simp add: take_map)
  also have "\<dots> = map R (take i ss)" unfolding assms by (simp add: take_map)
  finally have "map set (take i comps) = map R (take i ss)" .
  then have "set (map set (take i comps)) = set (map R (take i ss))" by simp
  then have "set ` set (take i comps) = R ` set (take i ss)" by simp
  then show ?thesis by (metis)
qed

text \<open>
  C5 (counterexample). With counts AA: 100, CC: 60, AC: 30 and threshold 1 the edges are
  AA \<rightarrow> AC and CC \<rightarrow> AC only. The search from AA returns AA and AC, the search from CC
  returns CC and AC: AC is in two components, and AA and CC, which the edges join when
  read in either direction, are in different components.
\<close>

theorem components_overlap_counterexample:
  "get_adj_list_directional [''AA'', ''CC'', ''AC'']
      [(''AA'', 100), (''CC'', 60), (''AC'', 30)] 1
     = Some [(''AA'', [''AC'']), (''CC'', [''AC'']), (''AC'', [])]
   \<and> get_connected_components_adjacency fifo_order [''AA'', ''CC'', ''AC'']
        [(''AA'', [''AC'']), (''CC'', [''AC'']), (''AC'', [])]
        [(''AA'', 100), (''CC'', 60), (''AC'', 30)]
     = Some [[''AA'', ''AC''], [''CC'', ''AC'']]
   \<and> \<not> distinct (concat [[''AA'', ''AC''], [''CC'', ''AC'']])"
  by code_simp

text \<open>
  C5 (amended). On an adjacency structure whose neighbours are all keys (and whose keys
  all have a count), \<open>get_connected_components_adjacency\<close> returns components that cover
  the keys, and each component is the set of nodes reached from a start node along the
  directed edges. The start node of a component lies in no earlier component and has the
  highest count among the keys that lie in no earlier component.
\<close>

theorem components_directed_reach:
  assumes "closed_graph graph" "fst ` set graph \<subseteq> fst ` set counts"
  shows "\<exists>comps ss. get_connected_components_adjacency so umis graph counts = Some comps
     \<and> length ss = length comps
     \<and> (\<Union>c\<in>set comps. set c) = fst ` set graph
     \<and> (\<forall>i<length comps.
           set (comps ! i) = reach graph (ss ! i)
         \<and> ss ! i \<in> fst ` set graph
         \<and> ss ! i \<notin> (\<Union>c\<in>set (take i comps). set c)
         \<and> (\<forall>u\<in>fst ` set graph - (\<Union>c\<in>set (take i comps). set c).
               count_of counts u \<le> count_of counts (ss ! i)))"
proof -
  let ?key = "\<lambda>x. - count_of counts x"
  let ?nodes = "sort_key ?key (map fst graph)"
  let ?R = "reach graph"
  let ?ss = "starts ?R ?nodes {}"
  from get_connected_components_adjacency_ok [OF assms, of so umis] obtain comps where
    c: "get_connected_components_adjacency so umis graph counts = Some comps"
    and m: "map set comps = map ?R ?ss" by blast
  have len: "length ?ss = length comps" using m by (metis length_map)
  have nodes: "set ?nodes = fst ` set graph" by simp
  have cov: "(\<Union>c\<in>set comps. set c) = fst ` set graph"
    by (rule components_cover [OF assms(1) m nodes])
  have "set (comps ! i) = ?R (?ss ! i)
         \<and> ?ss ! i \<in> fst ` set graph
         \<and> ?ss ! i \<notin> (\<Union>c\<in>set (take i comps). set c)
         \<and> (\<forall>u\<in>fst ` set graph - (\<Union>c\<in>set (take i comps). set c).
               count_of counts u \<le> count_of counts (?ss ! i))"
    if i: "i < length comps" for i
  proof -
    have i': "i < length ?ss" using i len by simp
    have "set (comps ! i) = map set comps ! i" using i by simp
    also have "\<dots> = ?R (?ss ! i)" unfolding m using i' by simp
    finally have 1: "set (comps ! i) = ?R (?ss ! i)" .
    have "?ss ! i \<in> set ?ss" using i' by simp
    with starts_subset [of ?R ?nodes "{}"] nodes have 2: "?ss ! i \<in> fst ` set graph" by auto
    have tk: "(\<Union>c\<in>set (take i comps). set c) = (\<Union>s\<in>set (take i ?ss). ?R s)"
      by (rule take_components [OF m])
    have "?ss ! i \<notin> {} \<union> (\<Union>s\<in>set (take i ?ss). ?R s)"
      by (rule starts_fresh [OF reach_refl i'])
    then have 3: "?ss ! i \<notin> (\<Union>c\<in>set (take i comps). set c)" using tk by simp
    have 4: "count_of counts u \<le> count_of counts (?ss ! i)"
      if u: "u \<in> fst ` set graph - (\<Union>c\<in>set (take i comps). set c)" for u
    proof -
      have "sorted (map ?key ?nodes)" by (rule sorted_sort_key)
      moreover have "u \<in> set ?nodes" using u nodes by simp
      moreover have "u \<notin> {} \<union> (\<Union>s\<in>set (take i ?ss). ?R s)" using u tk by simp
      ultimately have "?key (?ss ! i) \<le> ?key u"
        using starts_priority [of ?R ?key ?nodes i "{}" u] reach_refl i' by blast
      then show ?thesis by simp
    qed
    from 1 2 3 4 show ?thesis by blast
  qed
  with c len cov show ?thesis by blast
qed

theorem components_directed_reach_witness:
  "closed_graph [(''AA'', [''AC'']), (''CC'', [''AC'']), (''AC'', [])]
   \<and> fst ` set [(''AA'', [''AC'']), (''CC'', [''AC'']), (''AC'', [])]
       \<subseteq> fst ` set [(''AA'', 100 :: int), (''CC'', 60), (''AC'', 30)]
   \<and> (\<exists>comps ss. get_connected_components_adjacency lifo_order [''AA'', ''CC'', ''AC'']
          [(''AA'', [''AC'']), (''CC'', [''AC'']), (''AC'', [])]
          [(''AA'', 100), (''CC'', 60), (''AC'', 30)] = Some comps
     \<and> length ss = length comps
     \<and> (\<Union>c\<in>set comps. set c) = fst ` set [(''AA'', [''AC'']), (''CC'', [''AC'']), (''AC'', [])]
     \<and> (\<forall>i<length comps.
           set (comps ! i) = reach [(''AA'', [''AC'']), (''CC'', [''AC'']), (''AC'', [])] (ss ! i)
         \<and> ss ! i \<in> fst ` set [(''AA'', [''AC'']), (''CC'', [''AC'']), (''AC'', [])]
         \<and> ss ! i \<notin> (\<Union>c\<in>set (take i comps). set c)
         \<and> (\<forall>u\<in>fst ` set [(''AA'', [''AC'']), (''CC'', [''AC'']), (''AC'', [])]
                  - (\<Union>c\<in>set (take i comps). set c).
               count_of [(''AA'', 100), (''CC'', 60), (''AC'', 30)] u
                 \<le> count_of [(''AA'', 100), (''CC'', 60), (''AC'', 30)] (ss ! i))))"
proof -
  have h1: "closed_graph [(''AA'', [''AC'']), (''CC'', [''AC'']), (''AC'', [])]"
    by (simp add: closed_graph_def)
  have h2: "fst ` set [(''AA'', [''AC'']), (''CC'', [''AC'']), (''AC'', [])]
       \<subseteq> fst ` set [(''AA'', 100 :: int), (''CC'', 60), (''AC'', 30)]" by simp
  from components_directed_reach [OF h1 h2, of lifo_order "[''AA'', ''CC'', ''AC'']"] h1 h2
  show ?thesis by blast
qed

section \<open>Ties for the highest count decide by the order of iteration\<close>

lemma groups_of_sets:
  assumes "map set cs1 = map set cs2" "fresh obs cs1"
    and "\<forall>c\<in>set cs1. distinct c" "\<forall>c\<in>set cs2. distinct c"
  shows "map set (groups_of so1 counts obs cs1) = map set (groups_of so2 counts obs cs2)"
  using assms
proof (induction cs1 arbitrary: cs2 obs)
  case Nil
  then show ?case by simp
next
  case (Cons c1 cs1)
  from Cons.prems(1) obtain c2 cs2' where cs2: "cs2 = c2 # cs2'" "set c1 = set c2"
    "map set cs1 = map set cs2'" by (cases cs2) auto
  from Cons.prems(2) have f: "\<exists>s\<in>set c1. s \<notin> obs" "fresh (obs \<union> set c1) cs1" by auto
  have "set (group_of so1 counts obs c1) = set c1 - obs"
    by (rule set_group_of) (use Cons.prems f in auto)
  moreover have "set (group_of so2 counts obs c2) = set c2 - obs"
    by (rule set_group_of) (use Cons.prems f cs2 in auto)
  moreover have "map set (groups_of so1 counts (obs \<union> set c1) cs1)
      = map set (groups_of so2 counts (obs \<union> set c1) cs2')"
    by (rule Cons.IH) (use Cons.prems cs2 f in auto)
  ultimately show ?case using cs2 by simp
qed

lemma create_map_to_correct_umi_outside:
  assumes "distinct (concat cl)" "create_map_to_correct_umi cl = Some m"
    and "k \<notin> set (concat cl)"
  shows "map_of m k = None"
  using create_map_fold [OF assms(1), of "[]"] assms(2,3)
  by (auto simp: create_map_to_correct_umi_def)

lemma cluster_sets_independent:
  assumes "distinct (map fst counts)"
    and "cluster so1 counts t = Some cl1" "cluster so2 counts t = Some cl2"
  shows "map set cl1 = map set cl2"
proof -
  from cluster_ok [OF assms(1), of t so1] assms(2) obtain adj comps1 where
    a1: "get_adj_list_directional (map fst counts) counts t = Some adj"
    and c1: "cl1 = groups_of so1 counts {} comps1"
    and m1: "map set comps1 = map (reach adj)
              (starts (reach adj) (sort_key (\<lambda>x. - count_of counts x) (map fst adj)) {})"
    and d1: "\<forall>c\<in>set comps1. distinct c" and f1: "fresh {} comps1" by auto
  from cluster_ok [OF assms(1), of t so2] assms(3) a1 obtain comps2 where
    c2: "cl2 = groups_of so2 counts {} comps2"
    and m2: "map set comps2 = map (reach adj)
              (starts (reach adj) (sort_key (\<lambda>x. - count_of counts x) (map fst adj)) {})"
    and d2: "\<forall>c\<in>set comps2. distinct c" by auto
  show ?thesis unfolding c1 c2
    by (rule groups_of_sets) (use m1 m2 d1 d2 f1 in auto)
qed

text \<open>
  C3 (counterexample). The dictionary with A: 1 and C: 1 gives one component, of A and C,
  whose members tie. A run whose sets iterate in insertion order makes A the representative, a
  run whose sets iterate in the reverse order makes C the representative.
\<close>

theorem correction_map_order_counterexample:
  "correction_map fifo_order [(''A'', 1), (''C'', 1)] = Some [(''A'', ''A''), (''C'', ''A'')]
   \<and> correction_map lifo_order [(''A'', 1), (''C'', 1)] = Some [(''C'', ''C''), (''A'', ''C'')]"
  by code_simp

text \<open>
  C3 (amended). When in every cluster of a run the highest count belongs to one UMI only,
  every other run, whatever the order in which its sets are popped and iterated, returns
  the same correction map: the same representative for every UMI. Ties between UMIs
  below the highest count of their cluster are allowed.
\<close>

theorem correction_map_same_when_top_unique:
  assumes "distinct (map fst counts)"
    and "cluster so1 counts 3 = Some cl"
    and "\<forall>c\<in>set cl. \<forall>y\<in>set c. y \<noteq> hd c \<longrightarrow> count_of counts y < count_of counts (hd c)"
  shows "\<exists>m1 m2. correction_map so1 counts = Some m1 \<and> correction_map so2 counts = Some m2
           \<and> map_of m2 = map_of m1"
proof -
  from cluster_groups [OF assms(1), of so1 3] obtain cl1 where
    cl1: "cluster so1 counts 3 = Some cl1" "distinct (concat cl1)"
    "set (concat cl1) = fst ` set counts" by blast
  from cl1(1) assms(2) have "cl1 = cl" by simp
  with cl1 have d1: "distinct (concat cl)" and k1: "set (concat cl) = fst ` set counts"
    by simp_all
  from cluster_groups [OF assms(1), of so2 3] obtain cl2 where
    cl2: "cluster so2 counts 3 = Some cl2" and n2: "\<forall>c\<in>set cl2. c \<noteq> []"
    and d2: "distinct (concat cl2)" and k2: "set (concat cl2) = fst ` set counts"
    and h2: "\<forall>c\<in>set cl2. \<forall>z\<in>set c. count_of counts z \<le> count_of counts (hd c)"
    by blast
  have sets: "map set cl = map set cl2"
    by (rule cluster_sets_independent [OF assms(1,2) cl2])
  then have len: "length cl = length cl2" by (metis length_map)
  from create_map_to_correct_umi_ok [OF d1] obtain m1 where
    m1: "create_map_to_correct_umi cl = Some m1"
    "\<forall>c\<in>set cl. \<forall>k\<in>set c. map_of m1 k = Some (hd c)" by blast
  from create_map_to_correct_umi_ok [OF d2] obtain m2 where
    m2: "create_map_to_correct_umi cl2 = Some m2"
    "\<forall>c\<in>set cl2. \<forall>k\<in>set c. map_of m2 k = Some (hd c)" by blast
  have "map_of m2 k = map_of m1 k" for k
  proof (cases "k \<in> set (concat cl)")
    case False
    with k1 k2 have "k \<notin> set (concat cl2)" by simp
    from create_map_to_correct_umi_outside [OF d1 m1(1) False]
      create_map_to_correct_umi_outside [OF d2 m2(1) this]
    show ?thesis by simp
  next
    case True
    then obtain c where "c \<in> set cl" "k \<in> set c" by auto
    then obtain i where i: "i < length cl" "k \<in> set (cl ! i)" by (metis in_set_conv_nth)
    have "set (cl ! i) = map set cl ! i" using i by simp
    also have "\<dots> = set (cl2 ! i)" unfolding sets using i len by simp
    finally have eq: "set (cl ! i) = set (cl2 ! i)" .
    have in1: "cl ! i \<in> set cl" and in2: "cl2 ! i \<in> set cl2" using i len by auto
    have "cl ! i \<noteq> []" using i(2) by (cases "cl ! i") simp_all
    then have "hd (cl ! i) \<in> set (cl ! i)" by (rule hd_in_set)
    then have hd1: "hd (cl ! i) \<in> set (cl2 ! i)" by (simp only: eq)
    from n2 in2 have "cl2 ! i \<noteq> []" by (rule bspec)
    then have "hd (cl2 ! i) \<in> set (cl2 ! i)" by (rule hd_in_set)
    then have hd2: "hd (cl2 ! i) \<in> set (cl ! i)" by (simp only: eq)
    have k2': "k \<in> set (cl2 ! i)" using i(2) by (simp only: eq)
    from h2 in2 have "\<forall>z\<in>set (cl2 ! i). count_of counts z \<le> count_of counts (hd (cl2 ! i))"
      by (rule bspec)
    with hd1 have le: "count_of counts (hd (cl ! i)) \<le> count_of counts (hd (cl2 ! i))"
      by (rule bspec [rotated])
    have same: "hd (cl2 ! i) = hd (cl ! i)"
    proof (rule ccontr)
      assume ne: "hd (cl2 ! i) \<noteq> hd (cl ! i)"
      from assms(3) in1
      have "\<forall>y\<in>set (cl ! i). y \<noteq> hd (cl ! i)
              \<longrightarrow> count_of counts y < count_of counts (hd (cl ! i))"
        by (rule bspec)
      with hd2 ne have "count_of counts (hd (cl2 ! i)) < count_of counts (hd (cl ! i))"
        by simp
      with le show False by simp
    qed
    from m1(2) in1 have "\<forall>k\<in>set (cl ! i). map_of m1 k = Some (hd (cl ! i))" by (rule bspec)
    with i(2) have r1: "map_of m1 k = Some (hd (cl ! i))" by simp
    from m2(2) in2 have "\<forall>k\<in>set (cl2 ! i). map_of m2 k = Some (hd (cl2 ! i))" by (rule bspec)
    with k2' have r2: "map_of m2 k = Some (hd (cl2 ! i))" by simp
    from r1 r2 same show ?thesis by simp
  qed
  then have "map_of m2 = map_of m1" by (rule ext)
  with assms(2) cl2 m1(1) m2(1) show ?thesis by (simp add: correction_map_def)
qed


theorem correction_map_same_when_top_unique_witness:
  "distinct (map fst [(''AAA'', 10 :: int), (''AAC'', 1), (''AAG'', 1)])
   \<and> cluster fifo_order [(''AAA'', 10), (''AAC'', 1), (''AAG'', 1)] 3
       = Some [[''AAA'', ''AAC'', ''AAG'']]
   \<and> count_of [(''AAA'', 10), (''AAC'', 1), (''AAG'', 1)] ''AAC''
       < count_of [(''AAA'', 10), (''AAC'', 1), (''AAG'', 1)] ''AAA''
   \<and> count_of [(''AAA'', 10), (''AAC'', 1), (''AAG'', 1)] ''AAG''
       < count_of [(''AAA'', 10), (''AAC'', 1), (''AAG'', 1)] ''AAA''
   \<and> correction_map fifo_order [(''AAA'', 10), (''AAC'', 1), (''AAG'', 1)]
       = Some [(''AAA'', ''AAA''), (''AAC'', ''AAA''), (''AAG'', ''AAA'')]
   \<and> correction_map lifo_order [(''AAA'', 10), (''AAC'', 1), (''AAG'', 1)]
       = Some [(''AAA'', ''AAA''), (''AAG'', ''AAA''), (''AAC'', ''AAA'')]
   \<and> (\<exists>m1 m2. correction_map fifo_order [(''AAA'', 10), (''AAC'', 1), (''AAG'', 1)] = Some m1
         \<and> correction_map lifo_order [(''AAA'', 10), (''AAC'', 1), (''AAG'', 1)] = Some m2
         \<and> map_of m2 = map_of m1)"
proof -
  have h1: "distinct (map fst [(''AAA'', 10 :: int), (''AAC'', 1), (''AAG'', 1)])" by simp
  have h2: "cluster fifo_order [(''AAA'', 10), (''AAC'', 1), (''AAG'', 1)] 3
       = Some [[''AAA'', ''AAC'', ''AAG'']]" by code_simp
  have c1: "count_of [(''AAA'', 10), (''AAC'', 1), (''AAG'', 1)] ''AAC''
       < count_of [(''AAA'', 10), (''AAC'', 1), (''AAG'', 1)] ''AAA''"
    and c2: "count_of [(''AAA'', 10), (''AAC'', 1), (''AAG'', 1)] ''AAG''
       < count_of [(''AAA'', 10), (''AAC'', 1), (''AAG'', 1)] ''AAA''"
    by (simp_all add: count_of_def)
  have h3: "\<forall>c\<in>set [[''AAA'', ''AAC'', ''AAG'']]. \<forall>y\<in>set c. y \<noteq> hd c \<longrightarrow>
       count_of [(''AAA'', 10), (''AAC'', 1), (''AAG'', 1)] y
         < count_of [(''AAA'', 10), (''AAC'', 1), (''AAG'', 1)] (hd c)"
    using c1 c2 by simp
  have e1: "correction_map fifo_order [(''AAA'', 10), (''AAC'', 1), (''AAG'', 1)]
       = Some [(''AAA'', ''AAA''), (''AAC'', ''AAA''), (''AAG'', ''AAA'')]" by code_simp
  have e2: "correction_map lifo_order [(''AAA'', 10), (''AAC'', 1), (''AAG'', 1)]
       = Some [(''AAA'', ''AAA''), (''AAG'', ''AAA''), (''AAC'', ''AAA'')]" by code_simp
  have "\<exists>m1 m2. correction_map fifo_order [(''AAA'', 10), (''AAC'', 1), (''AAG'', 1)] = Some m1
         \<and> correction_map lifo_order [(''AAA'', 10), (''AAC'', 1), (''AAG'', 1)] = Some m2
         \<and> map_of m2 = map_of m1"
    by (rule correction_map_same_when_top_unique [OF h1 h2 h3])
  with h1 h2 c1 c2 e1 e2 show ?thesis by (intro conjI)
qed

lemma length_groups_of: "length (groups_of so counts obs cs) = length cs"
  by (induction cs arbitrary: obs) auto

lemma sort_key_rank_first:
  "y \<in> set c \<Longrightarrow> \<exists>rest. sort_key (\<lambda>x. if x = y then 0 else (1 :: nat)) c = y # rest"
proof (induction c)
  case Nil
  then show ?case by simp
next
  case (Cons x c)
  show ?case
  proof (cases "x = y")
    case True
    then show ?thesis by (cases "sort_key (\<lambda>x. if x = y then 0 else (1 :: nat)) c") auto
  next
    case False
    with Cons obtain rest where "sort_key (\<lambda>x. if x = y then 0 else (1 :: nat)) c = y # rest"
      by auto
    with False show ?thesis by simp
  qed
qed

lemma hd_filter_insort:
  "P y \<Longrightarrow> \<forall>z\<in>set xs. f z < f y \<longrightarrow> \<not> P z \<Longrightarrow> hd (filter P (insort_key f y xs)) = y"
  by (induction xs) auto

lemma group_of_iterate_first:
  assumes "distinct c" "y \<in> set c" "y \<notin> obs"
    and "\<forall>z\<in>set c - obs. count_of counts z \<le> count_of counts y"
  shows "hd (group_of (iterate_first y so) counts obs c) = y"
proof -
  let ?f = "\<lambda>x. - count_of counts x"
  from sort_key_rank_first [OF assms(2)] obtain rest where
    it: "set_iter (iterate_first y so) c = y # rest"
    by (auto simp: set_iter_def iterate_first_def)
  have sub: "set rest \<subseteq> set c"
    using set_set_iter [of "iterate_first y so" c] it by auto
  show ?thesis
  proof (cases "length c = 1")
    case True
    with it have "rest = []" using length_set_iter [of "iterate_first y so" c] by simp
    with True it show ?thesis by (simp add: group_of_def)
  next
    case False
    have "hd (filter (\<lambda>n. n \<notin> obs) (insort_key ?f y (sort_key ?f rest))) = y"
    proof (rule hd_filter_insort)
      show "y \<notin> obs" by fact
      show "\<forall>z\<in>set (sort_key ?f rest). ?f z < ?f y \<longrightarrow> \<not> z \<notin> obs"
      proof (intro ballI impI)
        fix z assume z: "z \<in> set (sort_key ?f rest)" "?f z < ?f y"
        then have zc: "z \<in> set c" using sub by auto
        show "\<not> z \<notin> obs"
        proof
          assume "z \<notin> obs"
          with zc have "z \<in> set c - obs" by simp
          with assms(4) have "count_of counts z \<le> count_of counts y" by (rule bspec)
          with z(2) show False by simp
        qed
      qed
    qed
    with False it show ?thesis by (simp add: group_of_def)
  qed
qed

lemma groups_of_iterate_first:
  assumes "fresh obs cs" "\<forall>c\<in>set cs. distinct c" "i < length cs"
    and "y \<in> set (groups_of (iterate_first y so) counts obs cs ! i)"
    and "\<forall>z\<in>set (groups_of (iterate_first y so) counts obs cs ! i).
           count_of counts z \<le> count_of counts y"
  shows "hd (groups_of (iterate_first y so) counts obs cs ! i) = y"
  using assms
proof (induction cs arbitrary: obs i)
  case Nil
  then show ?case by simp
next
  case (Cons c cs)
  show ?case
  proof (cases i)
    case 0
    from Cons.prems(1,2) have c: "distinct c" "\<exists>s\<in>set c. s \<notin> obs" by auto
    have g: "set (group_of (iterate_first y so) counts obs c) = set c - obs"
      by (rule set_group_of [OF c])
    from Cons.prems(4,5) 0 g
    have "y \<in> set c" "y \<notin> obs" "\<forall>z\<in>set c - obs. count_of counts z \<le> count_of counts y"
      by auto
    from group_of_iterate_first [OF c(1) this] 0 show ?thesis by simp
  next
    case (Suc j)
    from Cons.IH [of "obs \<union> set c" j] Cons.prems Suc show ?thesis by simp
  qed
qed

text \<open>
  Conversely, a UMI that shares the highest count of its cluster without being the
  representative becomes the representative in a run whose sets iterate it first: with a
  tie for the highest count the correction map depends on the order of iteration.
\<close>

lemma tied_top_depends_on_order:
  assumes "distinct (map fst counts)"
    and "cluster so1 counts 3 = Some cl"
    and "c \<in> set cl" "y \<in> set c" "y \<noteq> hd c"
    and "count_of counts y = count_of counts (hd c)"
  shows "\<exists>m1 m2. correction_map so1 counts = Some m1
           \<and> correction_map (iterate_first y so1) counts = Some m2
           \<and> map_of m1 y = Some (hd c) \<and> map_of m2 y = Some y"
proof -
  let ?so2 = "iterate_first y so1"
  from cluster_groups [OF assms(1), of so1 3] obtain cl1 where
    cl1: "cluster so1 counts 3 = Some cl1" "distinct (concat cl1)"
    "\<forall>c\<in>set cl1. \<forall>z\<in>set c. count_of counts z \<le> count_of counts (hd c)" by blast
  from cl1(1) assms(2) have "cl1 = cl" by simp
  with cl1 have d1: "distinct (concat cl)"
    and h1: "\<forall>c\<in>set cl. \<forall>z\<in>set c. count_of counts z \<le> count_of counts (hd c)"
    by simp_all
  from cluster_ok [OF assms(1), of 3 ?so2] obtain comps2 where
    c2: "cluster ?so2 counts 3 = Some (groups_of ?so2 counts {} comps2)"
    and dc: "\<forall>c\<in>set comps2. distinct c" and fr: "fresh {} comps2" by blast
  let ?cl2 = "groups_of ?so2 counts {} comps2"
  from cluster_groups [OF assms(1), of ?so2 3] c2
  have d2: "distinct (concat ?cl2)" by auto
  have sets: "map set cl = map set ?cl2"
    by (rule cluster_sets_independent [OF assms(1,2) c2])
  then have len: "length cl = length ?cl2" by (metis length_map)
  from assms(3) obtain i where i: "i < length cl" "cl ! i = c" by (metis in_set_conv_nth)
  have "set c = map set cl ! i" using i by simp
  also have "\<dots> = set (?cl2 ! i)" unfolding sets using i(1) len by simp
  finally have eq: "set c = set (?cl2 ! i)" .
  from h1 assms(3) have "\<forall>z\<in>set c. count_of counts z \<le> count_of counts (hd c)"
    by (rule bspec)
  then have mx: "\<forall>z\<in>set (?cl2 ! i). count_of counts z \<le> count_of counts y"
    by (simp only: eq assms(6))
  have y2: "y \<in> set (?cl2 ! i)" using assms(4) by (simp only: eq)
  have i2: "i < length comps2" using i(1) len by (simp add: length_groups_of)
  have hd2: "hd (?cl2 ! i) = y"
    by (rule groups_of_iterate_first [OF fr dc i2 y2 mx])
  from create_map_to_correct_umi_ok [OF d1] obtain m1 where
    m1: "create_map_to_correct_umi cl = Some m1"
    "\<forall>c\<in>set cl. \<forall>k\<in>set c. map_of m1 k = Some (hd c)" by blast
  from create_map_to_correct_umi_ok [OF d2] obtain m2 where
    m2: "create_map_to_correct_umi ?cl2 = Some m2"
    "\<forall>c\<in>set ?cl2. \<forall>k\<in>set c. map_of m2 k = Some (hd c)" by blast
  from m1(2) assms(3) have "\<forall>k\<in>set c. map_of m1 k = Some (hd c)" by (rule bspec)
  with assms(4) have r1: "map_of m1 y = Some (hd c)" by simp
  have "?cl2 ! i \<in> set ?cl2" using i(1) len by simp
  with m2(2) have "\<forall>k\<in>set (?cl2 ! i). map_of m2 k = Some (hd (?cl2 ! i))" by (rule bspec)
  with y2 hd2 have r2: "map_of m2 y = Some y" by simp
  from assms(2) c2 m1(1) m2(1) r1 r2 show ?thesis by (simp add: correction_map_def)
qed

section \<open>Region names\<close>

lemma interval_multiple:
  assumes "ref dvd m"
  shows "interval_start m ref = m" "interval_end m ref = m"
  using assms by (auto simp: interval_start_def interval_end_def)

lemma interval_width:
  assumes "ref \<noteq> 0" "\<not> ref dvd m"
  shows "interval_end m ref - interval_start m ref = ref"
proof -
  have "m mod ref \<noteq> 0" using assms(2) by (simp add: dvd_eq_mod_eq_0)
  then have "(- m) div ref = - (m div ref) - 1"
    using assms(1) by (simp add: zdiv_zminus1_eq_if)
  then have "interval_end m ref = (m div ref + 1) * ref"
    by (simp add: interval_end_def)
  then show ?thesis by (simp add: interval_start_def algebra_simps)
qed

text \<open>
  C10. With a non-zero interval size, the label of \<open>create_region_name\<close> is
  \<open>chr_start_end\<close> for the interval bounds computed from the midpoint. When the midpoint is
  a multiple of the interval size both bounds are the midpoint (a zero-width label);
  otherwise the bounds differ by exactly the interval size.
\<close>

theorem region_name_zero_width:
  assumes "ref_interval a \<noteq> 0"
  shows "create_region_name read a
       = Inr (tg_chr read @ ''_''
            @ str_int (interval_start (midpoint (tg_start read) (tg_end read)) (ref_interval a))
            @ ''_''
            @ str_int (interval_end (midpoint (tg_start read) (tg_end read)) (ref_interval a)))
   \<and> (ref_interval a dvd midpoint (tg_start read) (tg_end read) \<longrightarrow>
        interval_start (midpoint (tg_start read) (tg_end read)) (ref_interval a)
          = midpoint (tg_start read) (tg_end read)
      \<and> interval_end (midpoint (tg_start read) (tg_end read)) (ref_interval a)
          = midpoint (tg_start read) (tg_end read))
   \<and> (\<not> ref_interval a dvd midpoint (tg_start read) (tg_end read) \<longrightarrow>
        interval_end (midpoint (tg_start read) (tg_end read)) (ref_interval a)
          - interval_start (midpoint (tg_start read) (tg_end read)) (ref_interval a)
          = ref_interval a)"
  using assms interval_multiple interval_width
  by (simp add: create_region_name_def Let_def)

theorem region_name_zero_width_witness:
  "ref_interval \<lparr>ref_interval = 1000, cell_gene_max_reads = 20000\<rparr> \<noteq> 0
   \<and> (1000 :: int) dvd midpoint 1900 2100
   \<and> create_region_name
        \<lparr>tg_CB = ''ACGT'', tg_UR = ''AAAAA'', tg_chr = ''chr1'', tg_start = 1900, tg_end = 2100\<rparr>
        \<lparr>ref_interval = 1000, cell_gene_max_reads = 20000\<rparr> = Inr ''chr1_2000_2000''
   \<and> \<not> (1000 :: int) dvd midpoint 1400 1600
   \<and> create_region_name
        \<lparr>tg_CB = ''ACGT'', tg_UR = ''AAAAA'', tg_chr = ''chr1'', tg_start = 1400, tg_end = 1600\<rparr>
        \<lparr>ref_interval = 1000, cell_gene_max_reads = 20000\<rparr> = Inr ''chr1_1000_2000''"
proof -
  have h: "ref_interval \<lparr>ref_interval = 1000, cell_gene_max_reads = 20000\<rparr> \<noteq> 0" by simp
  have m1: "midpoint 1900 2100 = 2000" and m2: "midpoint 1400 1600 = 1500"
    by (simp_all add: midpoint_def)
  have s1: "str_int 2000 = ''2000''" and s2: "str_int 1000 = ''1000''"
    by code_simp+
  have i1: "interval_start 1500 1000 = 1000" and i2: "interval_end 1500 1000 = 2000"
    by (simp_all add: interval_start_def interval_end_def)
  from region_name_zero_width [OF h, of
      "\<lparr>tg_CB = ''ACGT'', tg_UR = ''AAAAA'', tg_chr = ''chr1'', tg_start = 1900, tg_end = 2100\<rparr>"]
    region_name_zero_width [OF h, of
      "\<lparr>tg_CB = ''ACGT'', tg_UR = ''AAAAA'', tg_chr = ''chr1'', tg_start = 1400, tg_end = 1600\<rparr>"]
  show ?thesis using h by (simp add: m1 m2 s1 s2 i1 i2)
qed

section \<open>The records of process\_records\<close>

lemma bind_err_Inr: "bind_err (Inr x) f = f x"
  by (simp add: bind_err_def)

lemma bind_err_Inl: "bind_err (Inl e) f = Inl e"
  by (simp add: bind_err_def)

lemma merge_keys:
  "(k, v) \<in> set (merge left right) \<Longrightarrow> k \<in> fst ` set left \<and> k \<in> fst ` set right"
  by (force simp: merge_def)

lemma row_record_ok:
  assumes "ref_interval a \<noteq> 0" "fst row \<in> fst ` set ta"
  shows "\<exists>r. row_record a (Some ta) row = Inr r"
proof -
  obtain read_id ga ref_id tg where row: "row = (read_id, ((ga, ref_id), tg))"
    by (metis prod.exhaust)
  from assms(2) row obtain t where "map_of ta read_id = Some t"
    by (metis domD dom_map_of_conv_image_fst fst_conv)
  then show ?thesis
    using assms(1) by (simp add: row create_region_name_def bind_err_def Let_def)
qed

lemma map_err_ok:
  "\<forall>x\<in>set xs. \<exists>y. f x = Inr y \<Longrightarrow> \<exists>ys. map_err f xs = Inr ys"
proof (induction xs)
  case Nil
  then show ?case by simp
next
  case (Cons x xs)
  then obtain y ys where "f x = Inr y" "map_err f xs = Inr ys" by auto
  then show ?case by (simp add: bind_err_Inr)
qed

lemma fold_record_step:
  "map_err (row_record a ta) rows = Inr all \<Longrightarrow>
     fold_err (record_step a ta) rows st = Inr (fold (count_and_cap a) all st)"
proof (induction rows arbitrary: all st)
  case Nil
  then show ?case by simp
next
  case (Cons row rows)
  from Cons.prems obtain r rs where r: "row_record a ta row = Inr r"
    "map_err (row_record a ta) rows = Inr rs" "all = r # rs"
    by (auto simp: bind_err_def split: sum.splits)
  from Cons.IH [OF r(2)] r(1,3) show ?case
    by (simp add: record_step_def bind_err_Inr)
qed

lemma count_and_cap_fold:
  "\<exists>c' R. fold (count_and_cap a) all (c0, recs) = (c', recs @ R)
     \<and> (\<forall>k. filter (\<lambda>r. record_group r = k) R
            = take (nat (cell_gene_max_reads a - int (c0 k)))
                (filter (\<lambda>r. record_group r = k) all))"
proof (induction all arbitrary: c0 recs)
  case Nil
  then show ?case by simp
next
  case (Cons r rs)
  obtain read_id gene transcript bc umi where r: "r = (read_id, gene, transcript, bc, umi)"
    by (metis prod.exhaust)
  let ?k0 = "(bc, gene)"
  let ?c1 = "c0(?k0 := c0 ?k0 + 1)"
  let ?cap = "cell_gene_max_reads a"
  have g: "record_group r = ?k0" by (simp add: r record_group_def)
  show ?case
  proof (cases "int (c0 ?k0 + 1) \<le> ?cap")
    case True
    from Cons.IH [of ?c1 "recs @ [r]"] obtain c' R where
      f: "fold (count_and_cap a) rs (?c1, recs @ [r]) = (c', (recs @ [r]) @ R)"
      and p: "\<forall>k. filter (\<lambda>r. record_group r = k) R
            = take (nat (?cap - int (?c1 k))) (filter (\<lambda>r. record_group r = k) rs)" by blast
    have step: "fold (count_and_cap a) (r # rs) (c0, recs) = (c', recs @ (r # R))"
      using True f by (simp add: r)
    have "filter (\<lambda>x. record_group x = k) (r # R)
            = take (nat (?cap - int (c0 k))) (filter (\<lambda>x. record_group x = k) (r # rs))" for k
    proof (cases "k = ?k0")
      case k: True
      from p have "filter (\<lambda>r. record_group r = ?k0) R
            = take (nat (?cap - int (?c1 ?k0))) (filter (\<lambda>r. record_group r = ?k0) rs)"
        by (rule spec)
      moreover have "nat (?cap - int (c0 ?k0)) = Suc (nat (?cap - int (?c1 ?k0)))"
        using True by simp
      ultimately show ?thesis unfolding k using g by simp
    next
      case False
      from p have "filter (\<lambda>r. record_group r = k) R
            = take (nat (?cap - int (?c1 k))) (filter (\<lambda>r. record_group r = k) rs)"
        by (rule spec)
      moreover have "?c1 k = c0 k" using False by simp
      ultimately show ?thesis using False g by simp
    qed
    with step show ?thesis by blast
  next
    case False
    from Cons.IH [of ?c1 recs] obtain c' R where
      f: "fold (count_and_cap a) rs (?c1, recs) = (c', recs @ R)"
      and p: "\<forall>k. filter (\<lambda>r. record_group r = k) R
            = take (nat (?cap - int (?c1 k))) (filter (\<lambda>r. record_group r = k) rs)" by blast
    have step: "fold (count_and_cap a) (r # rs) (c0, recs) = (c', recs @ R)"
      using False f by (simp add: r)
    have "filter (\<lambda>x. record_group x = k) R
            = take (nat (?cap - int (c0 k))) (filter (\<lambda>x. record_group x = k) (r # rs))" for k
    proof (cases "k = ?k0")
      case k: True
      from p have "filter (\<lambda>r. record_group r = ?k0) R
            = take (nat (?cap - int (?c1 ?k0))) (filter (\<lambda>r. record_group r = ?k0) rs)"
        by (rule spec)
      moreover have "nat (?cap - int (c0 ?k0)) = 0" "nat (?cap - int (?c1 ?k0)) = 0"
        using False by simp_all
      ultimately show ?thesis unfolding k by simp
    next
      case k: False
      from p have "filter (\<lambda>r. record_group r = k) R
            = take (nat (?cap - int (?c1 k))) (filter (\<lambda>r. record_group r = k) rs)"
        by (rule spec)
      moreover have "?c1 k = c0 k" using k by simp
      ultimately show ?thesis using k g by simp
    qed
    with step show ?thesis by blast
  qed
qed

text \<open>
  C6. With a non-zero interval size, the loop of \<open>process_records\<close> raises nothing, and of
  the records of each pair (cell barcode, gene), in the order of the rows, it keeps
  exactly the first \<open>cell_gene_max_reads\<close>: a group with more rows than a non-negative cap
  keeps exactly as many records as the cap.
\<close>

theorem cap_keeps_first_reads:
  assumes "ref_interval a \<noteq> 0"
  shows "\<exists>all records.
           map_err (row_record a (Some transcript_assigns))
             (merge (merge gene_assigns transcript_assigns) tags) = Inr all
         \<and> collect_records a gene_assigns transcript_assigns tags = Inr records
         \<and> (\<forall>k. filter (\<lambda>r. record_group r = k) records
                = take (nat (cell_gene_max_reads a)) (filter (\<lambda>r. record_group r = k) all))
         \<and> (\<forall>k. 0 \<le> cell_gene_max_reads a
                \<and> cell_gene_max_reads a < int (length (filter (\<lambda>r. record_group r = k) all))
              \<longrightarrow> int (length (filter (\<lambda>r. record_group r = k) records))
                    = cell_gene_max_reads a)"
proof -
  let ?rows = "merge (merge gene_assigns transcript_assigns) tags"
  have "fst row \<in> fst ` set transcript_assigns" if "row \<in> set ?rows" for row
  proof -
    obtain k v where row: "row = (k, v)" by (cases row)
    with that merge_keys [of k v "merge gene_assigns transcript_assigns" tags]
    obtain w where "(k, w) \<in> set (merge gene_assigns transcript_assigns)" by auto
    from merge_keys [OF this] row show ?thesis by simp
  qed
  then have "\<forall>row\<in>set ?rows. \<exists>r. row_record a (Some transcript_assigns) row = Inr r"
    using row_record_ok [OF assms] by blast
  from map_err_ok [OF this] obtain all where
    all: "map_err (row_record a (Some transcript_assigns)) ?rows = Inr all" by blast
  from count_and_cap_fold [of a all "\<lambda>k. 0" "[]"] obtain c' records where
    f: "fold (count_and_cap a) all (\<lambda>k. 0, []) = (c', records)"
    and p: "\<forall>k. filter (\<lambda>r. record_group r = k) records
            = take (nat (cell_gene_max_reads a)) (filter (\<lambda>r. record_group r = k) all)"
    by auto
  have c: "collect_records a gene_assigns transcript_assigns tags = Inr records"
    using fold_record_step [OF all, of "(\<lambda>k. 0, [])"] f
    by (simp add: collect_records_def bind_err_Inr Let_def)
  have "int (length (filter (\<lambda>r. record_group r = k) records)) = cell_gene_max_reads a"
    if "0 \<le> cell_gene_max_reads a"
      "cell_gene_max_reads a < int (length (filter (\<lambda>r. record_group r = k) all))" for k
  proof -
    from p have "filter (\<lambda>r. record_group r = k) records
            = take (nat (cell_gene_max_reads a)) (filter (\<lambda>r. record_group r = k) all)"
      by (rule spec)
    then have "length (filter (\<lambda>r. record_group r = k) records)
            = min (length (filter (\<lambda>r. record_group r = k) all)) (nat (cell_gene_max_reads a))"
      by simp
    with that show ?thesis by simp
  qed
  with all c p show ?thesis by blast
qed

theorem cap_keeps_first_reads_witness:
  "ref_interval example_args \<noteq> 0
   \<and> collect_records example_args example_gene_table example_transcript_table example_tag_table
      = Inr [(''r1'', ''G1'', ''T1'', ''B'', ''AAAA''), (''r2'', ''G1'', ''T1'', ''B'', ''AAAT''),
             (''r4'', ''chr1_10_20'', ''T2'', ''B'', ''AAAT'')]
   \<and> (\<exists>all records.
           map_err (row_record example_args (Some example_transcript_table))
             (merge (merge example_gene_table example_transcript_table) example_tag_table)
             = Inr all
         \<and> collect_records example_args example_gene_table example_transcript_table
              example_tag_table = Inr records
         \<and> (\<forall>k. filter (\<lambda>r. record_group r = k) records
                = take (nat (cell_gene_max_reads example_args))
                    (filter (\<lambda>r. record_group r = k) all))
         \<and> (\<forall>k. 0 \<le> cell_gene_max_reads example_args
                \<and> cell_gene_max_reads example_args
                    < int (length (filter (\<lambda>r. record_group r = k) all))
              \<longrightarrow> int (length (filter (\<lambda>r. record_group r = k) records))
                    = cell_gene_max_reads example_args))"
proof (intro conjI)
  show h: "ref_interval example_args \<noteq> 0" by (simp add: example_args_def)
  show "collect_records example_args example_gene_table example_transcript_table
          example_tag_table
      = Inr [(''r1'', ''G1'', ''T1'', ''B'', ''AAAA''), (''r2'', ''G1'', ''T1'', ''B'', ''AAAT''),
             (''r4'', ''chr1_10_20'', ''T2'', ''B'', ''AAAT'')]"
    by code_simp
  show "\<exists>all records.
           map_err (row_record example_args (Some example_transcript_table))
             (merge (merge example_gene_table example_transcript_table) example_tag_table)
             = Inr all
         \<and> collect_records example_args example_gene_table example_transcript_table
              example_tag_table = Inr records
         \<and> (\<forall>k. filter (\<lambda>r. record_group r = k) records
                = take (nat (cell_gene_max_reads example_args))
                    (filter (\<lambda>r. record_group r = k) all))
         \<and> (\<forall>k. 0 \<le> cell_gene_max_reads example_args
                \<and> cell_gene_max_reads example_args
                    < int (length (filter (\<lambda>r. record_group r = k) all))
              \<longrightarrow> int (length (filter (\<lambda>r. record_group r = k) records))
                    = cell_gene_max_reads example_args)"
    by (rule cap_keeps_first_reads [OF h])
qed

lemma count_and_cap_records:
  "count_and_cap a r (c0, recs) = (c', recs') \<Longrightarrow> set recs' \<subseteq> insert r (set recs)"
  by (cases r) (auto simp: Let_def split: if_splits)

lemma fold_record_step_records:
  "fold_err (record_step a ta) rows (c0, recs) = Inr (c', recs') \<Longrightarrow>
     \<forall>r\<in>set recs'. r \<in> set recs \<or> (\<exists>row\<in>set rows. row_record a ta row = Inr r)"
proof (induction rows arbitrary: c0 recs)
  case Nil
  then show ?case by simp
next
  case (Cons row rows)
  from Cons.prems obtain r where r: "row_record a ta row = Inr r"
    by (cases "row_record a ta row") (auto simp: record_step_def bind_err_def)
  obtain c1 recs1 where s: "count_and_cap a r (c0, recs) = (c1, recs1)"
    by (cases "count_and_cap a r (c0, recs)")
  have "record_step a ta row (c0, recs) = Inr (c1, recs1)"
    using r s by (simp add: record_step_def bind_err_def)
  with Cons.prems have "fold_err (record_step a ta) rows (c1, recs1) = Inr (c', recs')"
    by (simp add: bind_err_def)
  from Cons.IH [OF this] count_and_cap_records [OF s] r show ?case by auto
qed

lemma row_record_transcript:
  "row_record a (Some ta) row = Inr (read_id, gene, transcript, bc, umi) \<Longrightarrow>
     map_of ta read_id = Some transcript"
  by (cases row) (auto simp: bind_err_def Let_def split: option.splits sum.splits if_splits)

text \<open>
  A record of the loop carries the transcript that the transcript table holds for its
  read: a read without a row in that table has no record, and the sentinel \<open>"-"\<close> of the
  \<open>else\<close> branch is never written.
\<close>

lemma collect_records_transcript:
  assumes "collect_records a gene_assigns transcript_assigns tags = Inr records"
    and "(read_id, gene, transcript, bc, umi) \<in> set records"
  shows "map_of transcript_assigns read_id = Some transcript"
proof -
  let ?rows = "merge (merge gene_assigns transcript_assigns) tags"
  from assms(1) obtain c where
    "fold_err (record_step a (Some transcript_assigns)) ?rows (\<lambda>k. 0, []) = Inr (c, records)"
    by (auto simp: collect_records_def bind_err_def Let_def split: sum.splits)
  from fold_record_step_records [OF this] assms(2) obtain row where
    "row_record a (Some transcript_assigns) row = Inr (read_id, gene, transcript, bc, umi)"
    by auto
  then show ?thesis by (rule row_record_transcript)
qed

text \<open>
  C7 (the code at the failing input). Reads r1 and r2 are in the gene table and in the tag
  table, only r1 is in the transcript table. The inner merge drops r2: the dictionaries
  handed to \<open>add_tags\<close> hold r1 only, and no read receives the transcript \<open>"-"\<close>.
\<close>

theorem read_without_transcript_dropped:
  "process_records fifo_order example_args
     [(''r1'', example_gene ''G1''), (''r2'', example_gene ''G1'')]
     [(''r1'', ''T1'')]
     [(''r1'', example_tags ''B'' ''AAAA''), (''r2'', example_tags ''B'' ''AAAT'')]
   = Inr ([(''r1'', ''AAAA'')], [(''r1'', ''G1'')], [(''r1'', ''T1'')])"
  by code_simp

text \<open>
  C8 (the code at the failing input). With no row in the gene table no batch is
  dispatched, the fallback frame has no column \<open>transcript\<close>, and
  \<open>df.to_dict()["transcript"]\<close> raises \<open>KeyError\<close>.
\<close>

theorem empty_input_raises:
  "process_records so a [] transcript_assigns tags = Inl (KeyError ''transcript'')"
  by (simp add: process_records_def collect_records_def merge_def from_records_def
      get_col_def col_pos_def set_col_def set_index_def drop_col_def drop_cols_def
      remove_nth_def chunks_def set_iter_def set_update_def to_dict_col_def
      bind_err_def Let_def)

end
